theory Spec2Isabelle
  imports Complex_Main "HOL-Library.Char_ord" "HOL-Library.List_Lexorder" "HOL-Library.Log_Nat"
begin

section \<open>The bounded LRU cache of \<^verbatim>\<open>cpp/src/cache/Cache.cpp\<close>\<close>

text \<open>
  The development embeds the class \<^verbatim>\<open>zilliz::milvus::cache::Cache\<close> as pure functions on
  a record of its members. Execution is sequential: the mutex of the class is not part of the
  state, every member function runs to completion before the next one starts.

  Conventions of the embedding.
  \<^item> The members \<^verbatim>\<open>usage_\<close>, \<^verbatim>\<open>capacity_\<close>, \<^verbatim>\<open>freemem_percent_\<close>, \<^verbatim>\<open>lru_\<close> and
    \<^verbatim>\<open>data_\<close> lose their trailing underscore.
  \<^item> \<^verbatim>\<open>int64_t\<close> byte counts are \<open>int\<close>: signed overflow is undefined in C++, so the
    embedding describes the executions in which every sum of sizes stays below \<open>2^63\<close>.
  \<^item> A \<^verbatim>\<open>double\<close> is the rational number it denotes. The conversion of an \<^verbatim>\<open>int64_t\<close>
    to \<^verbatim>\<open>double\<close> and the product of two doubles round to the nearest double (a significand
    of 53 bits, ties to the even significand), as IEEE 754 binary64 arithmetic does in its
    default rounding mode; the conversion of a \<^verbatim>\<open>double\<close> to \<^verbatim>\<open>int64_t\<close> truncates toward
    zero, as C++ does. The exponent range is not bounded: no product of an \<^verbatim>\<open>int64_t\<close> and
    a ratio between 0 and 1 overflows or is subnormal.
  \<^item> A throw is a value \<open>Inl e\<close> of the result type; \<^verbatim>\<open>print\<close> only logs and is omitted.
\<close>

subsection \<open>Payloads and entries\<close>

text \<open>
  Modelled from the spec: \<^verbatim>\<open>DataObj\<close> (declared in \<^verbatim>\<open>DataObj.h\<close>, which is not part of the
  sources at hand). The spec describes the payload as an opaque object that reports a stable,
  non-negative byte size; \<open>ptr\<close> stands for the identity of the payload a \<^verbatim>\<open>DataObjPtr\<close>
  refers to. A null \<^verbatim>\<open>DataObjPtr\<close> is not a value of this type.
\<close>

record dataobj =
  ptr :: nat
  data_size :: nat

text \<open>
  Modelled from the spec: \<^verbatim>\<open>CacheObj\<close> (declared in \<^verbatim>\<open>Cache.h\<close>, not at hand): the entry
  stored under a key, holding the payload reference \<^verbatim>\<open>data_\<close>. Every \<^verbatim>\<open>CacheObj\<close> is
  allocated by \<^verbatim>\<open>Cache::insert\<close> and referenced from the index only, so entries are values.
\<close>

record cacheobj =
  data :: dataobj

datatype error = NotFound | EraseAbsent

subsection \<open>The recency index\<close>

text \<open>
  Modelled from the spec: the class template \<^verbatim>\<open>LRU\<close> (\<^verbatim>\<open>LRU.h\<close>, not at hand), following
  section 4.1 of the specification. The index is the list of its (key, entry) pairs with the
  most recently used pair first, and the optional cap on the number of entries that the
  constructor of \<^verbatim>\<open>Cache\<close> passes on.
  \<^item> \<open>exists\<close>: membership, no effect on the order.
  \<^item> \<open>get\<close>: fails with \<open>NotFound\<close> when the key is absent, otherwise moves the key to the
    most recently used end and returns its entry.
  \<^item> \<open>put\<close>: inserts at the most recently used end, replacing an entry of the same key; when
    the count then exceeds the cap, the least recently used entry is dropped.
  \<^item> \<open>erase\<close>: removes the entry; the spec makes it safe on present keys only, so erasing an
    absent key is the failure \<open>EraseAbsent\<close>.
  \<^item> \<open>rbegin\<close>: the traversal from the least to the most recently used pair.
\<close>

record LRU =
  items :: "(string \<times> cacheobj) list"
  max_size :: nat

text \<open>Modelled from the spec: \<^verbatim>\<open>LRU::exists\<close>, the membership test.\<close>

definition LRU_exists :: "string \<Rightarrow> LRU \<Rightarrow> bool" where
  "LRU_exists key l = (key \<in> set (map fst (items l)))"

text \<open>Modelled from the spec: \<^verbatim>\<open>LRU::get\<close>, which touches the key or fails.\<close>

definition LRU_get :: "string \<Rightarrow> LRU \<Rightarrow> error + (cacheobj \<times> LRU)" where
  "LRU_get key l =
     (case map_of (items l) key of
        None \<Rightarrow> Inl NotFound
      | Some obj \<Rightarrow> Inr (obj, l\<lparr>items := (key, obj) # filter (\<lambda>p. fst p \<noteq> key) (items l)\<rparr>))"

text \<open>Modelled from the spec: \<^verbatim>\<open>LRU::put\<close>, with the cap on the number of entries.\<close>

definition LRU_put :: "string \<Rightarrow> cacheobj \<Rightarrow> LRU \<Rightarrow> LRU" where
  "LRU_put key obj l =
     (let xs = (key, obj) # filter (\<lambda>p. fst p \<noteq> key) (items l)
      in l\<lparr>items := (if max_size l < length xs then butlast xs else xs)\<rparr>)"

text \<open>Modelled from the spec: \<^verbatim>\<open>LRU::erase\<close>, specified for present keys.\<close>

definition LRU_erase :: "string \<Rightarrow> LRU \<Rightarrow> error + LRU" where
  "LRU_erase key l =
     (if LRU_exists key l then Inr (l\<lparr>items := filter (\<lambda>p. fst p \<noteq> key) (items l)\<rparr>)
      else Inl EraseAbsent)"

text \<open>Modelled from the spec: \<^verbatim>\<open>LRU::size\<close>, the number of entries.\<close>

definition LRU_size :: "LRU \<Rightarrow> nat" where
  "LRU_size l = length (items l)"

text \<open>Modelled from the spec: \<^verbatim>\<open>LRU::clear\<close>, which removes all entries.\<close>

definition LRU_clear :: "LRU \<Rightarrow> LRU" where
  "LRU_clear l = l\<lparr>items := []\<rparr>"

text \<open>Modelled from the spec: the reverse traversal from \<^verbatim>\<open>LRU::rbegin\<close> to \<^verbatim>\<open>LRU::rend\<close>.\<close>

definition LRU_rbegin :: "LRU \<Rightarrow> (string \<times> cacheobj) list" where
  "LRU_rbegin l = rev (items l)"

text \<open>
  The assignment \<^verbatim>\<open>obj_ptr->data_ = data_ptr\<close> of \<^verbatim>\<open>Cache::insert\<close> writes through the
  shared pointer that \<open>get\<close> returned, so it changes the entry that the index stores under
  the key.
\<close>

definition LRU_store_data :: "string \<Rightarrow> dataobj \<Rightarrow> LRU \<Rightarrow> LRU" where
  "LRU_store_data key data_ptr l =
     l\<lparr>items := map (\<lambda>p. if fst p = key then (fst p, (snd p)\<lparr>data := data_ptr\<rparr>) else p) (items l)\<rparr>"

subsection \<open>Double precision arithmetic\<close>

text \<open>The power of two with an integer exponent.\<close>

definition pow2 :: "int \<Rightarrow> rat" where
  "pow2 e = (if 0 \<le> e then 2 ^ nat e else 1 / 2 ^ nat (- e))"

text \<open>Rounding to the nearest integer, a tie to the even one.\<close>

definition round_even :: "rat \<Rightarrow> int" where
  "round_even x =
     (let f = \<lfloor>x\<rfloor>; r = x - of_int f
      in if r < 1 / 2 then f else if 1 / 2 < r then f + 1 else if even f then f else f + 1)"

text \<open>
  The binary exponent of a positive rational \<open>x\<close>: the \<open>e\<close> with \<open>2^e \<le> x < 2^(e+1)\<close>,
  found from the bit lengths of the numerator and the denominator.
\<close>

definition exponent_of :: "rat \<Rightarrow> int" where
  "exponent_of x =
     (let (p, q) = quotient_of x; e = bitlen p - bitlen q
      in if pow2 e \<le> x then e else e - 1)"

text \<open>
  The nearest double: the magnitude is rounded to a multiple of \<open>2^(e-52)\<close>, the unit in the
  last place of a significand of 53 bits.
\<close>

definition double_round :: "rat \<Rightarrow> rat" where
  "double_round x =
     (if x = 0 then 0
      else let a = \<bar>x\<bar>; u = pow2 (exponent_of a - 52)
           in sgn x * (of_int (round_even (a / u)) * u))"

text \<open>The conversion of an \<^verbatim>\<open>int64_t\<close> to \<^verbatim>\<open>double\<close> and the product of two doubles.\<close>

definition double_of_int64 :: "int \<Rightarrow> rat" where
  "double_of_int64 i = double_round (of_int i)"

definition double_mult :: "rat \<Rightarrow> rat \<Rightarrow> rat" where
  "double_mult x y = double_round (x * y)"

text \<open>The conversion of a \<^verbatim>\<open>double\<close> to \<^verbatim>\<open>int64_t\<close> drops the fractional part.\<close>

definition int64_of_double :: "rat \<Rightarrow> int" where
  "int64_of_double r = (if 0 \<le> r then \<lfloor>r\<rfloor> else \<lceil>r\<rceil>)"

subsection \<open>The cache\<close>

record Cache =
  usage :: int
  capacity :: int
  freemem_percent :: rat
  lru :: LRU

text \<open>The constant is the double that the literal \<^verbatim>\<open>0.85\<close> denotes.\<close>

definition DEFAULT_THRESHHOLD_PERCENT :: rat where
  "DEFAULT_THRESHHOLD_PERCENT = double_round (85 / 100)"

definition Cache_construct :: "int \<Rightarrow> nat \<Rightarrow> Cache" where
  "Cache_construct cap cache_max_count =
     \<lparr>usage = 0, capacity = cap, freemem_percent = DEFAULT_THRESHHOLD_PERCENT,
      lru = \<lparr>items = [], max_size = cache_max_count\<rparr>\<rparr>"

definition Cache_size :: "Cache \<Rightarrow> nat" where
  "Cache_size c = LRU_size (lru c)"

definition Cache_exists :: "string \<Rightarrow> Cache \<Rightarrow> bool" where
  "Cache_exists key c = LRU_exists key (lru c)"

definition Cache_get :: "string \<Rightarrow> Cache \<Rightarrow> error + (dataobj option \<times> Cache)" where
  "Cache_get key c =
     (if \<not> LRU_exists key (lru c) then Inr (None, c)
      else case LRU_get key (lru c) of
             Inl e \<Rightarrow> Inl e
           | Inr (cache_obj, l) \<Rightarrow> Inr (Some (data cache_obj), c\<lparr>lru := l\<rparr>))"

definition Cache_erase :: "string \<Rightarrow> Cache \<Rightarrow> error + Cache" where
  "Cache_erase key c =
     (if \<not> LRU_exists key (lru c) then Inr c
      else case LRU_get key (lru c) of
             Inl e \<Rightarrow> Inl e
           | Inr (obj_ptr, l) \<Rightarrow>
               (case LRU_erase key l of
                  Inl e \<Rightarrow> Inl e
                | Inr l' \<Rightarrow> Inr (c\<lparr>usage := usage c - int (data_size (data obj_ptr)), lru := l'\<rparr>)))"

definition Cache_clear :: "Cache \<Rightarrow> Cache" where
  "Cache_clear c = c\<lparr>lru := LRU_clear (lru c), usage := 0\<rparr>"

text \<open>\<^verbatim>\<open>std::set<std::string>::emplace\<close>: the set is kept as its sorted list of distinct keys.\<close>

definition emplace :: "string \<Rightarrow> string list \<Rightarrow> string list" where
  "emplace key key_array = (if key \<in> set key_array then key_array else insort key key_array)"

text \<open>
  The \<^verbatim>\<open>while\<close> loop of \<^verbatim>\<open>free_memory\<close> over the reverse iterator; the second argument is
  what is left of the traversal.
\<close>

fun release_scan :: "int \<Rightarrow> (string \<times> cacheobj) list \<Rightarrow> string list \<Rightarrow> int \<Rightarrow> string list \<times> int" where
  "release_scan delta_size [] key_array released_size = (key_array, released_size)"
| "release_scan delta_size (it # rest) key_array released_size =
     (if released_size < delta_size
      then release_scan delta_size rest (emplace (fst it) key_array)
             (released_size + int (data_size (data (snd it))))
      else (key_array, released_size))"

text \<open>The \<^verbatim>\<open>for\<close> loop of \<^verbatim>\<open>free_memory\<close> that erases the collected keys in the set's order.\<close>

fun erase_keys :: "string list \<Rightarrow> Cache \<Rightarrow> error + Cache" where
  "erase_keys [] c = Inr c"
| "erase_keys (key # rest) c =
     (case Cache_erase key c of Inl e \<Rightarrow> Inl e | Inr c' \<Rightarrow> erase_keys rest c')"

text \<open>
  \<^verbatim>\<open>int64_t threshhold = capacity_ * freemem_percent_\<close>: the capacity is converted to
  \<^verbatim>\<open>double\<close>, multiplied in \<^verbatim>\<open>double\<close>, and the product converted back.
\<close>

definition threshhold :: "Cache \<Rightarrow> int" where
  "threshhold c = int64_of_double (double_mult (double_of_int64 (capacity c)) (freemem_percent c))"

definition Cache_free_memory :: "Cache \<Rightarrow> error + Cache" where
  "Cache_free_memory c =
     (if usage c \<le> capacity c then Inr c
      else let delta_size = usage c - threshhold c;
               (key_array, released_size) = release_scan delta_size (LRU_rbegin (lru c)) [] 0
           in erase_keys key_array c)"

definition Cache_set_capacity :: "int \<Rightarrow> Cache \<Rightarrow> error + Cache" where
  "Cache_set_capacity cap c =
     (if 0 < cap then Cache_free_memory (c\<lparr>capacity := cap\<rparr>) else Inr c)"

text \<open>The block of \<^verbatim>\<open>insert\<close> that runs under the lock: the index and the counter change.\<close>

definition Cache_insert_locked :: "string \<Rightarrow> dataobj \<Rightarrow> Cache \<Rightarrow> error + Cache" where
  "Cache_insert_locked key data_ptr c =
     (if LRU_exists key (lru c)
      then case LRU_get key (lru c) of
             Inl e \<Rightarrow> Inl e
           | Inr (obj_ptr, l) \<Rightarrow>
               Inr (c\<lparr>usage := usage c - int (data_size (data obj_ptr)) + int (data_size data_ptr),
                      lru := LRU_store_data key data_ptr l\<rparr>)
      else Inr (c\<lparr>lru := LRU_put key \<lparr>data = data_ptr\<rparr> (lru c),
                  usage := usage c + int (data_size data_ptr)\<rparr>))"

definition Cache_insert :: "string \<Rightarrow> dataobj \<Rightarrow> Cache \<Rightarrow> error + Cache" where
  "Cache_insert key data_ptr c =
     (case Cache_insert_locked key data_ptr c of
        Inl e \<Rightarrow> Inl e
      | Inr c' \<Rightarrow> if capacity c' < usage c' then Cache_free_memory c' else Inr c')"

subsection \<open>Notions used to state the properties\<close>

text \<open>The sum of the sizes of a list of entries.\<close>

definition sum_sizes :: "(string \<times> cacheobj) list \<Rightarrow> int" where
  "sum_sizes xs = sum_list (map (\<lambda>p. int (data_size (data (snd p)))) xs)"

text \<open>
  The invariant of the index (every key appears once) and the accounting invariant of the
  cache (the counter is the sum of the sizes of the entries in the index).
\<close>

definition LRU_wf :: "LRU \<Rightarrow> bool" where
  "LRU_wf l = distinct (map fst (items l))"

definition cache_inv :: "Cache \<Rightarrow> bool" where
  "cache_inv c = (LRU_wf (lru c) \<and> usage c = sum_sizes (items (lru c)))"

text \<open>The number of iterations of the \<^verbatim>\<open>while\<close> loop of \<^verbatim>\<open>free_memory\<close>.\<close>

fun release_count :: "int \<Rightarrow> (string \<times> cacheobj) list \<Rightarrow> int \<Rightarrow> nat" where
  "release_count delta_size [] released_size = 0"
| "release_count delta_size (it # rest) released_size =
     (if released_size < delta_size
      then Suc (release_count delta_size rest (released_size + int (data_size (data (snd it)))))
      else 0)"

text \<open>The cache without the entries of a set of keys, their sizes taken off the counter.\<close>

definition drop_keys :: "string set \<Rightarrow> Cache \<Rightarrow> Cache" where
  "drop_keys K c =
     c\<lparr>usage := usage c - sum_sizes (filter (\<lambda>p. fst p \<in> K) (items (lru c))),
       lru := (lru c)\<lparr>items := filter (\<lambda>p. fst p \<notin> K) (items (lru c))\<rparr>\<rparr>"

text \<open>The cache without its \<open>n\<close> least recently used entries.\<close>

definition evict_oldest :: "nat \<Rightarrow> Cache \<Rightarrow> Cache" where
  "evict_oldest n c =
     c\<lparr>usage := usage c - sum_sizes (take n (LRU_rbegin (lru c))),
       lru := (lru c)\<lparr>items := rev (drop n (LRU_rbegin (lru c)))\<rparr>\<rparr>"

text \<open>
  The eviction algorithm in the words of the specification, over a traversal \<open>xs\<close> that
  starts at the least recently used entry: the shortest prefix whose accumulated sizes reach
  \<open>delta\<close>, or all of \<open>xs\<close> when no prefix does; the pass erases the keys of that prefix.
  The threshold is a parameter, so that the algorithm can be read with the threshold of the
  specification, \<open>floor (capacity * 0.85)\<close> in exact arithmetic, and with the one the code
  computes.
\<close>

definition shortest_prefix :: "int \<Rightarrow> (string \<times> cacheobj) list \<Rightarrow> (string \<times> cacheobj) list" where
  "shortest_prefix delta xs =
     (case find (\<lambda>n. delta \<le> sum_sizes (take n xs)) [0..<length xs] of
        Some n \<Rightarrow> take n xs
      | None \<Rightarrow> xs)"

definition eviction_by :: "(Cache \<Rightarrow> int) \<Rightarrow> Cache \<Rightarrow> Cache" where
  "eviction_by threshold c =
     (if usage c \<le> capacity c then c
      else let delta = usage c - threshold c
           in drop_keys (fst ` set (shortest_prefix delta (LRU_rbegin (lru c)))) c)"

definition spec_threshold :: "Cache \<Rightarrow> int" where
  "spec_threshold c = \<lfloor>of_int (capacity c) * (85 / 100 :: rat)\<rfloor>"

text \<open>
  Key \<open>a\<close> was used more recently than key \<open>b\<close>: \<open>b\<close> comes after \<open>a\<close> in the index,
  which lists the most recently used key first.
\<close>

definition more_recent :: "string \<Rightarrow> string \<Rightarrow> Cache \<Rightarrow> bool" where
  "more_recent a b c = (b \<in> set (tl (dropWhile (\<lambda>k. k \<noteq> a) (map fst (items (lru c))))))"

text \<open>
  An eviction pass that needs exactly one removal: the usage exceeds the capacity, something
  has to be released, and the size of the least recently used entry alone reaches
  \<open>delta = usage - threshold\<close>.
\<close>

definition needs_one_removal :: "Cache \<Rightarrow> bool" where
  "needs_one_removal c =
     (capacity c < usage c \<and>
      (case LRU_rbegin (lru c) of
         [] \<Rightarrow> False
       | it # rest \<Rightarrow>
           0 < usage c - threshhold c \<and>
           usage c - threshhold c \<le> int (data_size (data (snd it)))))"

text \<open>Running member functions one after the other; the first failure ends the run.\<close>

definition and_then :: "error + Cache \<Rightarrow> (Cache \<Rightarrow> error + Cache) \<Rightarrow> error + Cache" where
  "and_then r f = (case r of Inl e \<Rightarrow> Inl e | Inr c \<Rightarrow> f c)"

text \<open>
  Sequential runs: a list of calls of the member functions, applied one after the other.
  \<open>run_within_cap\<close> holds when no insert of the run adds a key to an index that is at its
  cap on the number of entries.
\<close>

datatype call = Insert string dataobj | Erase string | Clear | Get string | Set_capacity int

fun apply_call :: "call \<Rightarrow> Cache \<Rightarrow> error + Cache" where
  "apply_call (Insert key data_ptr) c = Cache_insert key data_ptr c"
| "apply_call (Erase key) c = Cache_erase key c"
| "apply_call Clear c = Inr (Cache_clear c)"
| "apply_call (Get key) c = (case Cache_get key c of Inl e \<Rightarrow> Inl e | Inr (r, c') \<Rightarrow> Inr c')"
| "apply_call (Set_capacity cap) c = Cache_set_capacity cap c"

fun run :: "call list \<Rightarrow> Cache \<Rightarrow> error + Cache" where
  "run [] c = Inr c"
| "run (x # xs) c = and_then (apply_call x c) (run xs)"

text \<open>An insert that does not run into the cap on the number of entries.\<close>

definition within_count_cap :: "string \<Rightarrow> Cache \<Rightarrow> bool" where
  "within_count_cap key c =
     (LRU_exists key (lru c) \<or> length (items (lru c)) < max_size (lru c))"

fun call_within_cap :: "call \<Rightarrow> Cache \<Rightarrow> bool" where
  "call_within_cap (Insert key data_ptr) c = within_count_cap key c"
| "call_within_cap x c = True"

fun run_within_cap :: "call list \<Rightarrow> Cache \<Rightarrow> bool" where
  "run_within_cap [] c = True"
| "run_within_cap (x # xs) c =
     (call_within_cap x c \<and>
      (case apply_call x c of Inl e \<Rightarrow> True | Inr c' \<Rightarrow> run_within_cap xs c'))"

text \<open>Concrete entries and cache states for the examples (threshold ratio 0.85, cap 10).\<close>

definition entry :: "string \<Rightarrow> nat \<Rightarrow> nat \<Rightarrow> string \<times> cacheobj" where
  "entry key p s = (key, \<lparr>data = \<lparr>ptr = p, data_size = s\<rparr>\<rparr>)"

definition state_of :: "int \<Rightarrow> int \<Rightarrow> (string \<times> cacheobj) list \<Rightarrow> Cache" where
  "state_of u cap xs =
     \<lparr>usage = u, capacity = cap, freemem_percent = DEFAULT_THRESHHOLD_PERCENT,
      lru = \<lparr>items = xs, max_size = 10\<rparr>\<rparr>"

section \<open>Rounding to double precision\<close>

text \<open>
  The facts about the rounding that the properties need: the exponent is the right one, the
  relative error of a rounding is at most \<open>2^-53\<close>, integers below \<open>2^53\<close> are doubles, and
  the threshold that the code computes from a capacity between 0 and \<open>2^48\<close> with the ratio
  0.85 is \<open>floor (capacity * 0.85)\<close>.
\<close>

lemma pow2_powi: "pow2 e = 2 powi e"
proof (cases "0 \<le> e")
  case True
  then show ?thesis by (simp add: pow2_def power_int_def)
next
  case False
  have "inverse (2::rat) ^ n = 1 / 2 ^ n" for n
    by (simp add: inverse_eq_divide power_one_over)
  with False show ?thesis by (simp add: pow2_def power_int_def)
qed

lemma pow2_pos [simp]: "0 < pow2 e"
  by (simp add: pow2_def)

lemma pow2_nonneg [simp]: "0 \<le> pow2 e"
  by (rule less_imp_le) simp

lemma pow2_nonzero [simp]: "pow2 e \<noteq> 0"
  using pow2_pos [of e] by (simp del: pow2_pos)

lemma pow2_add: "pow2 (a + b) = pow2 a * pow2 b"
  by (simp add: pow2_powi power_int_add)

lemma pow2_diff: "pow2 (a - b) = pow2 a / pow2 b"
  by (simp add: pow2_powi power_int_diff)

lemma pow2_nat: "pow2 (int n) = 2 ^ n"
  by (simp add: pow2_def)

lemma pow2_mono: "a \<le> b \<Longrightarrow> pow2 a \<le> pow2 b"
proof -
  assume "a \<le> b"
  then obtain n where b: "b = a + int n" by (metis zle_iff_zadd)
  have "(1::rat) \<le> 2 ^ n" by simp
  then have "pow2 a * 1 \<le> pow2 a * 2 ^ n"
    by (intro mult_left_mono) simp_all
  then show ?thesis by (simp add: b pow2_add pow2_nat)
qed

lemma pow2_less_imp_less:
  assumes "pow2 a < pow2 b" shows "a < b"
proof (rule ccontr)
  assume "\<not> a < b"
  then have "pow2 b \<le> pow2 a" by (intro pow2_mono) simp
  with assms show False by simp
qed

lemma exponent_of_bounds:
  assumes "0 < x"
  shows "pow2 (exponent_of x) \<le> x" "x < pow2 (exponent_of x + 1)"
proof -
  obtain p q where pq: "quotient_of x = (p, q)" by (cases "quotient_of x")
  then have q: "0 < q" and x: "x = of_int p / of_int q"
    using quotient_of_denom_pos [OF pq] quotient_of_div [OF pq] by simp_all
  from assms x q have p: "0 < p" by (simp add: zero_less_divide_iff)
  let ?bp = "bitlen p" and ?bq = "bitlen q"
  from bitlen_bounds [OF p] have p1: "2 ^ nat (?bp - 1) \<le> p" and p2: "p < 2 ^ nat ?bp" by simp_all
  from bitlen_bounds [OF q] have q1: "2 ^ nat (?bq - 1) \<le> q" and q2: "q < 2 ^ nat ?bq" by simp_all
  have bp: "1 \<le> ?bp" using p by (simp add: bitlen_alt_def)
  have bq: "1 \<le> ?bq" using q by (simp add: bitlen_alt_def)
  have P1: "pow2 (?bp - 1) \<le> of_int p"
  proof -
    have "(of_int (2 ^ nat (?bp - 1)) :: rat) \<le> of_int p" using p1 by (simp only: of_int_le_iff)
    then show ?thesis using bp by (simp add: pow2_def)
  qed
  have P2: "of_int p < pow2 ?bp"
  proof -
    have "(of_int p :: rat) < of_int (2 ^ nat ?bp)" using p2 by (simp only: of_int_less_iff)
    then show ?thesis using bp by (simp add: pow2_def)
  qed
  have Q1: "pow2 (?bq - 1) \<le> of_int q"
  proof -
    have "(of_int (2 ^ nat (?bq - 1)) :: rat) \<le> of_int q" using q1 by (simp only: of_int_le_iff)
    then show ?thesis using bq by (simp add: pow2_def)
  qed
  have Q2: "of_int q < pow2 ?bq"
  proof -
    have "(of_int q :: rat) < of_int (2 ^ nat ?bq)" using q2 by (simp only: of_int_less_iff)
    then show ?thesis using bq by (simp add: pow2_def)
  qed
  have qpos: "(0::rat) < of_int q" using q by simp
  have lower: "pow2 (?bp - ?bq - 1) \<le> x"
  proof -
    have "pow2 (?bp - ?bq - 1) * of_int q \<le> pow2 (?bp - ?bq - 1) * pow2 ?bq"
      using Q2 by (intro mult_left_mono) simp_all
    also have "\<dots> = pow2 (?bp - 1)" by (simp add: pow2_add [symmetric])
    also have "\<dots> \<le> of_int p" by (rule P1)
    finally show ?thesis using qpos by (simp add: x pos_le_divide_eq)
  qed
  have upper: "x < pow2 (?bp - ?bq + 1)"
  proof -
    have "of_int p < pow2 ?bp" by (rule P2)
    also have "\<dots> = pow2 (?bp - ?bq + 1) * pow2 (?bq - 1)" by (simp add: pow2_add [symmetric])
    also have "\<dots> \<le> pow2 (?bp - ?bq + 1) * of_int q"
      using Q1 by (intro mult_left_mono) simp_all
    finally show ?thesis using qpos by (simp add: x pos_divide_less_eq)
  qed
  show "pow2 (exponent_of x) \<le> x"
    using lower by (simp add: exponent_of_def pq Let_def)
  show "x < pow2 (exponent_of x + 1)"
    using upper by (auto simp: exponent_of_def pq Let_def)
qed

lemma round_even_error: "\<bar>of_int (round_even y) - y\<bar> \<le> 1 / 2"
proof -
  have "of_int \<lfloor>y\<rfloor> \<le> y" "y < of_int \<lfloor>y\<rfloor> + 1" by linarith+
  then show ?thesis
    by (auto simp: round_even_def Let_def)
qed

lemma round_even_of_int [simp]: "round_even (of_int k) = k"
  by (simp add: round_even_def)

lemma round_even_below:
  assumes "of_int k - 1 / 2 < y" "y \<le> of_int k"
  shows "round_even y = k"
proof (cases "y = of_int k")
  case True
  then show ?thesis by simp
next
  case False
  with assms have "\<lfloor>y\<rfloor> = k - 1" by (simp add: floor_unique)
  with assms False show ?thesis by (simp add: round_even_def)
qed

lemma double_round_error: "\<bar>double_round x - x\<bar> \<le> \<bar>x\<bar> / 2 ^ 53"
proof (cases "x = 0")
  case True
  then show ?thesis by (simp add: double_round_def)
next
  case False
  let ?a = "\<bar>x\<bar>"
  let ?e = "exponent_of ?a"
  let ?u = "pow2 (?e - 52)"
  let ?R = "of_int (round_even (?a / ?u)) :: rat"
  from False have a: "0 < ?a" by simp
  have u: "0 < ?u" by simp
  have dr: "double_round x = sgn x * (?R * ?u)"
    using False by (simp add: double_round_def Let_def)
  have "\<bar>double_round x - x\<bar> = \<bar>sgn x * (?R * ?u) - sgn x * ?a\<bar>"
    by (simp add: dr mult_sgn_abs)
  also have "\<dots> = \<bar>sgn x\<bar> * \<bar>?R * ?u - ?a\<bar>"
    by (simp add: right_diff_distrib [symmetric] abs_mult)
  also have "\<dots> = \<bar>?R * ?u - ?a\<bar>"
    using False by (simp add: abs_sgn_eq)
  also have "\<dots> = \<bar>?R - ?a / ?u\<bar> * ?u"
  proof -
    have "?R * ?u - ?a = (?R - ?a / ?u) * ?u" using u by (simp add: left_diff_distrib)
    then show ?thesis using u by (simp add: abs_mult)
  qed
  also have "\<dots> \<le> 1 / 2 * ?u"
    using round_even_error [of "?a / ?u"] u by (intro mult_right_mono) simp_all
  also have "\<dots> = pow2 ?e / 2 ^ 53"
    by (simp add: pow2_diff pow2_nat [of 52, simplified])
  also have "\<dots> \<le> ?a / 2 ^ 53"
    using exponent_of_bounds(1) [OF a] by (simp add: divide_right_mono)
  finally show ?thesis .
qed

lemma DEFAULT_THRESHHOLD_PERCENT_value:
  "DEFAULT_THRESHHOLD_PERCENT = 7656119366529843 / 9007199254740992"
  by code_simp

lemma double_round_bounds:
  assumes "0 \<le> x"
  shows "x - x / 2 ^ 53 \<le> double_round x" "double_round x \<le> x + x / 2 ^ 53"
proof -
  have "\<bar>double_round x - x\<bar> \<le> x / 2 ^ 53"
    using double_round_error [of x] assms by simp
  then have "double_round x - x \<le> x / 2 ^ 53" "- (double_round x - x) \<le> x / 2 ^ 53"
    by (simp_all only: abs_le_iff)
  then show "x - x / 2 ^ 53 \<le> double_round x" "double_round x \<le> x + x / 2 ^ 53"
    by linarith+
qed

lemma double_product_bounds:
  assumes "0 \<le> c"
  shows "0 \<le> double_mult (double_of_int64 c) DEFAULT_THRESHHOLD_PERCENT"
    and "double_mult (double_of_int64 c) DEFAULT_THRESHHOLD_PERCENT \<le> of_int c"
proof -
  let ?x = "of_int c :: rat"
  let ?dc = "double_round ?x"
  let ?p = "?dc * (7656119366529843 / 9007199254740992)"
  from assms have x: "0 \<le> ?x" by simp
  note b1 = double_round_bounds [OF x]
  from b1(1) x have dc: "0 \<le> ?dc" by simp
  then have p: "0 \<le> ?p" by simp
  note b2 = double_round_bounds [OF p]
  show "0 \<le> double_mult (double_of_int64 c) DEFAULT_THRESHHOLD_PERCENT"
    using b2(1) p
    by (simp add: double_mult_def double_of_int64_def DEFAULT_THRESHHOLD_PERCENT_value)
  show "double_mult (double_of_int64 c) DEFAULT_THRESHHOLD_PERCENT \<le> of_int c"
    using b2(2) b1(2) x
    by (simp add: double_mult_def double_of_int64_def DEFAULT_THRESHHOLD_PERCENT_value)
qed

lemma double_round_near_int:
  assumes "0 < x" "x \<le> of_int k" "of_int k - x < pow2 (exponent_of x - 53)"
    and "exponent_of x \<le> 52"
  shows "double_round x = of_int k"
proof -
  let ?e = "exponent_of x"
  let ?n = "nat (52 - ?e)"
  let ?u = "pow2 (?e - 52)"
  have u: "?u = 1 / 2 ^ ?n"
    using assms(4) by (auto simp: pow2_def)
  have half: "pow2 (?e - 53) = ?u / 2"
    using pow2_diff [of "?e - 52" 1] by (simp add: pow2_def)
  have ku: "of_int k / ?u = of_int (k * 2 ^ ?n)" by (simp add: u)
  have "of_int (k * 2 ^ ?n) - x / ?u = (of_int k - x) / ?u"
    by (simp only: ku [symmetric] diff_divide_distrib)
  also have "\<dots> < (?u / 2) / ?u"
    using assms(3) by (simp only: half divide_strict_right_mono pow2_pos)
  also have "\<dots> = 1 / 2" by simp
  finally have lo: "of_int (k * 2 ^ ?n) - 1 / 2 < x / ?u" by simp
  have "x / ?u \<le> of_int k / ?u"
    using assms(2) by (simp only: divide_right_mono pow2_nonneg)
  then have hi: "x / ?u \<le> of_int (k * 2 ^ ?n)" by (simp only: ku)
  have "round_even (x / ?u) = k * 2 ^ ?n" by (rule round_even_below [OF lo hi])
  with assms(1) show ?thesis
    by (simp add: double_round_def Let_def) (simp add: u)
qed

lemma exponent_le:
  assumes "0 < x" "x < pow2 b"
  shows "exponent_of x < b"
proof -
  from exponent_of_bounds(1) [OF assms(1)] assms(2) have "pow2 (exponent_of x) < pow2 b" by simp
  then show ?thesis by (rule pow2_less_imp_less)
qed

lemma double_of_int64_exact:
  assumes "0 \<le> c" "c < 2 ^ 53"
  shows "double_of_int64 c = of_int c"
proof (cases "c = 0")
  case True
  then show ?thesis by (simp add: double_of_int64_def double_round_def)
next
  case False
  with assms have pos: "(0::rat) < of_int c" by simp
  have "(of_int c :: rat) < of_int (2 ^ 53)" using assms(2) by (simp only: of_int_less_iff)
  then have "(of_int c :: rat) < pow2 53" by (simp add: pow2_def)
  from exponent_le [OF pos this] have e: "exponent_of (of_int c) \<le> 52" by simp
  have "double_round (of_int c) = of_int c"
    by (rule double_round_near_int [OF pos _ _ e]) simp_all
  then show ?thesis by (simp add: double_of_int64_def)
qed

lemma double_threshold_floor:
  assumes "0 \<le> c" "c < 2 ^ 48"
  shows "int64_of_double (double_mult (double_of_int64 c) DEFAULT_THRESHHOLD_PERCENT) =
         \<lfloor>of_int c * (85 / 100 :: rat)\<rfloor>"
proof (cases "c = 0")
  case True
  then show ?thesis
    by (simp add: double_of_int64_def double_mult_def double_round_def int64_of_double_def)
next
  case False
  let ?x = "of_int c :: rat"
  let ?p = "?x * (7656119366529843 / 9007199254740992)"
  let ?pr = "double_round ?p"
  define k where "k = (17 * c) div 20"
  define j where "j = (17 * c) mod 20"
  from False assms have cpos: "0 < ?x" by simp
  have "(of_int c :: rat) < of_int (2 ^ 48)" using assms(2) by (simp only: of_int_less_iff)
  then have clt: "?x < 281474976710656" by simp
  have "c < 2 ^ 53" using assms(2) by simp
  from double_of_int64_exact [OF assms(1) this]
  have prod: "double_mult (double_of_int64 c) DEFAULT_THRESHHOLD_PERCENT = ?pr"
    by (simp add: double_mult_def DEFAULT_THRESHHOLD_PERCENT_value)
  have ppos: "0 < ?p" using cpos by simp
  have "17 * c = 20 * k + j" by (simp add: k_def j_def)
  then have "(of_int (17 * c) :: rat) = of_int (20 * k + j)" by (simp only:)
  then have kj: "17 * ?x = 20 * of_int k + of_int j" by simp
  have j: "0 \<le> j" "j < 20" by (simp_all add: j_def)
  have fl: "\<lfloor>?x * (85 / 100 :: rat)\<rfloor> = k"
  proof (rule floor_unique)
    show "of_int k \<le> ?x * (85 / 100)" using kj j(1) by simp
    have "(of_int j :: rat) < of_int 20" using j(2) by (simp only: of_int_less_iff)
    then show "?x * (85 / 100) < of_int k + 1" using kj by simp
  qed
  note b = double_round_bounds [OF less_imp_le [OF ppos]]
  have prnn: "0 \<le> ?pr" using b(1) ppos by simp
  have "\<lfloor>?pr\<rfloor> = k"
  proof (cases "j = 0")
    case True
    with kj have k: "of_int k = 17 * ?x / 20" by simp
    let ?e = "exponent_of ?p"
    note eb = exponent_of_bounds [OF ppos]
    have "?p < pow2 48" using clt cpos by (simp add: pow2_def)
    from exponent_le [OF ppos this] have e52: "?e \<le> 52" by simp
    have t: "pow2 (?e + 1) = 2 * pow2 ?e" "pow2 (?e - 53) = pow2 ?e / 2 ^ 53"
      using pow2_add [of ?e 1] pow2_diff [of ?e 53] by (simp_all add: pow2_def)
    have le: "?p \<le> of_int k" using cpos by (simp add: k)
    have near: "of_int k - ?p < pow2 (?e - 53)"
      using eb(2) cpos unfolding t k by simp
    have "?pr = of_int k" by (rule double_round_near_int [OF ppos le near e52])
    then show ?thesis by simp
  next
    case False
    with j have "1 \<le> j" "j \<le> 19" by simp_all
    then have "(of_int 1 :: rat) \<le> of_int j" "(of_int j :: rat) \<le> of_int 19"
      by (simp_all only: of_int_le_iff)
    then have j': "(1::rat) \<le> of_int j" "(of_int j :: rat) \<le> 19" by simp_all
    show ?thesis
    proof (rule floor_unique)
      show "of_int k \<le> ?pr" using b(1) kj j' clt cpos by simp
      show "?pr < of_int k + 1" using b(2) kj j' clt cpos by simp
    qed
  qed
  with prnn fl show ?thesis by (simp add: prod int64_of_double_def)
qed

section \<open>Basic facts\<close>

lemma sum_sizes_simps [simp]:
  "sum_sizes [] = 0"
  "sum_sizes (p # xs) = int (data_size (data (snd p))) + sum_sizes xs"
  "sum_sizes (xs @ ys) = sum_sizes xs + sum_sizes ys"
  by (simp_all add: sum_sizes_def)

lemma sum_sizes_rev [simp]: "sum_sizes (rev xs) = sum_sizes xs"
  by (induction xs) simp_all

lemma sum_sizes_nonneg: "0 \<le> sum_sizes xs"
  by (induction xs) simp_all

lemma LRU_exists_map_of: "LRU_exists key l \<longleftrightarrow> map_of (items l) key \<noteq> None"
  by (simp add: LRU_exists_def map_of_eq_None_iff)

lemma Cache_erase_eq:
  "Cache_erase key c =
     Inr (case map_of (items (lru c)) key of
            None \<Rightarrow> c
          | Some obj \<Rightarrow> c\<lparr>usage := usage c - int (data_size (data obj)),
                          lru := (lru c)\<lparr>items := filter (\<lambda>p. fst p \<noteq> key) (items (lru c))\<rparr>\<rparr>)"
  by (auto simp: Cache_erase_def LRU_exists_map_of LRU_get_def LRU_erase_def LRU_exists_def
           split: option.splits)

lemma sum_sizes_filter_key:
  "distinct (map fst xs) \<Longrightarrow>
   sum_sizes (filter (\<lambda>p. fst p = key) xs) =
     (case map_of xs key of None \<Rightarrow> 0 | Some obj \<Rightarrow> int (data_size (data obj)))"
proof (induction xs)
  case Nil
  then show ?case by simp
next
  case (Cons p xs)
  obtain k obj where p: "p = (k, obj)" by (cases p)
  show ?case
  proof (cases "k = key")
    case True
    with Cons.prems p have "key \<notin> fst ` set xs" by auto
    then have "filter (\<lambda>p. fst p = key) xs = []"
      by (auto simp: filter_empty_conv)
    with True p show ?thesis by simp
  next
    case False
    with Cons p show ?thesis by simp
  qed
qed

lemma Cache_erase_distinct:
  assumes "distinct (map fst (items (lru c)))"
  shows "Cache_erase key c = Inr (drop_keys {key} c)"
proof (cases "map_of (items (lru c)) key")
  case None
  then have "key \<notin> fst ` set (items (lru c))" by (simp add: map_of_eq_None_iff)
  then have "filter (\<lambda>p. fst p \<noteq> key) (items (lru c)) = items (lru c)"
    by (auto simp: filter_id_conv)
  with None show ?thesis
    by (simp add: Cache_erase_eq drop_keys_def sum_sizes_filter_key [OF assms])
next
  case (Some obj)
  then show ?thesis
    by (simp add: Cache_erase_eq drop_keys_def sum_sizes_filter_key [OF assms])
qed

lemma drop_keys_insert: "drop_keys K (drop_keys {k} c) = drop_keys (insert k K) c"
proof -
  have a: "filter (\<lambda>p. fst p \<notin> K) (filter (\<lambda>p. fst p \<noteq> k) xs) =
           filter (\<lambda>p. fst p \<noteq> k \<and> fst p \<notin> K) xs" for xs :: "(string \<times> cacheobj) list"
    by (induction xs) auto
  have b: "usage c - sum_sizes (filter (\<lambda>p. fst p = k) xs) -
             sum_sizes (filter (\<lambda>p. fst p \<in> K) (filter (\<lambda>p. fst p \<noteq> k) xs)) =
           usage c - sum_sizes (filter (\<lambda>p. fst p = k \<or> fst p \<in> K) xs)"
    for xs :: "(string \<times> cacheobj) list"
    by (induction xs) auto
  show ?thesis
    by (simp add: drop_keys_def a b del: filter_filter)
qed

lemma drop_keys_distinct:
  "distinct (map fst (items (lru c))) \<Longrightarrow> distinct (map fst (items (lru (drop_keys K c))))"
  by (simp add: drop_keys_def distinct_map_filter)

lemma drop_keys_empty [simp]: "drop_keys {} c = c"
  by (simp add: drop_keys_def)

lemma erase_keys_distinct:
  "distinct (map fst (items (lru c))) \<Longrightarrow> erase_keys ks c = Inr (drop_keys (set ks) c)"
proof (induction ks arbitrary: c)
  case Nil
  then show ?case by simp
next
  case (Cons k ks)
  have "erase_keys (k # ks) c = erase_keys ks (drop_keys {k} c)"
    by (simp add: Cache_erase_distinct [OF Cons.prems])
  also have "\<dots> = Inr (drop_keys (set ks) (drop_keys {k} c))"
    by (rule Cons.IH [OF drop_keys_distinct [OF Cons.prems]])
  finally show ?case
    by (simp add: drop_keys_insert)
qed

lemma set_emplace [simp]: "set (emplace k ks) = insert k (set ks)"
  by (auto simp: emplace_def set_insort_key)

lemma set_fold_emplace: "set (fold emplace ks ks0) = set ks \<union> set ks0"
  by (induction ks arbitrary: ks0) auto

lemma release_scan_eq:
  "release_scan delta xs ks r =
     (fold emplace (map fst (take (release_count delta xs r) xs)) ks,
      r + sum_sizes (take (release_count delta xs r) xs))"
  by (induction delta xs ks r rule: release_scan.induct) auto

lemma release_count_le: "release_count delta xs r \<le> length xs"
  by (induction delta xs r rule: release_count.induct) auto

lemma release_count_below:
  "m < release_count delta xs r \<Longrightarrow> r + sum_sizes (take m xs) < delta"
proof (induction delta xs r arbitrary: m rule: release_count.induct)
  case (1 delta r)
  then show ?case by simp
next
  case (2 delta it rest r)
  then show ?case
    by (cases m) (auto split: if_splits simp: algebra_simps)
qed

lemma release_count_reached:
  "release_count delta xs r = length xs \<or> delta \<le> r + sum_sizes (take (release_count delta xs r) xs)"
  by (induction delta xs r rule: release_count.induct) (auto simp: algebra_simps)

lemma shortest_prefix_eq: "shortest_prefix delta xs = take (release_count delta xs 0) xs"
proof -
  let ?n = "release_count delta xs 0"
  have le: "?n \<le> length xs" by (rule release_count_le)
  have below: "\<And>m. m < ?n \<Longrightarrow> sum_sizes (take m xs) < delta"
    using release_count_below [of _ delta xs 0] by simp
  have reached: "?n = length xs \<or> delta \<le> sum_sizes (take ?n xs)"
    using release_count_reached [of delta xs 0] by simp
  show ?thesis
  proof (cases "find (\<lambda>n. delta \<le> sum_sizes (take n xs)) [0..<length xs]")
    case None
    then have no: "\<And>m. m < length xs \<Longrightarrow> \<not> delta \<le> sum_sizes (take m xs)"
      by (auto simp: find_None_iff)
    have "?n = length xs"
    proof (rule ccontr)
      assume "?n \<noteq> length xs"
      with le reached have "?n < length xs" "delta \<le> sum_sizes (take ?n xs)" by auto
      with no show False by blast
    qed
    with None show ?thesis by (simp add: shortest_prefix_def)
  next
    case (Some k)
    then have k: "k < length xs" "delta \<le> sum_sizes (take k xs)"
      and least: "\<And>j. j < k \<Longrightarrow> \<not> delta \<le> sum_sizes (take j xs)"
      by (auto simp: find_Some_iff)
    have "\<not> k < ?n" using below k(2) by fastforce
    moreover have "\<not> ?n < k"
    proof
      assume "?n < k"
      with k(1) reached have "delta \<le> sum_sizes (take ?n xs)" by auto
      with least \<open>?n < k\<close> show False by blast
    qed
    ultimately have "k = ?n" by simp
    with Some show ?thesis by (simp add: shortest_prefix_def)
  qed
qed

lemma Cache_free_memory_eq:
  assumes "LRU_wf (lru c)"
  shows "Cache_free_memory c = Inr (eviction_by threshhold c)"
proof -
  have d: "distinct (map fst (items (lru c)))" using assms by (simp add: LRU_wf_def)
  show ?thesis
    by (simp add: Cache_free_memory_def eviction_by_def release_scan_eq shortest_prefix_eq
        erase_keys_distinct [OF d] set_fold_emplace Let_def)
qed

lemma filter_keys_take:
  "distinct (map fst xs) \<Longrightarrow>
   filter (\<lambda>p. fst p \<in> fst ` set (take n xs)) xs = take n xs \<and>
   filter (\<lambda>p. fst p \<notin> fst ` set (take n xs)) xs = drop n xs"
proof -
  assume d: "distinct (map fst xs)"
  have "distinct (map fst (take n xs @ drop n xs))" using d by simp
  then have disj: "fst ` set (take n xs) \<inter> fst ` set (drop n xs) = {}"
    by (simp only: map_append distinct_append set_map)
  have t: "filter (\<lambda>p. fst p \<in> fst ` set (take n xs)) (take n xs) = take n xs"
    by (auto simp: filter_id_conv)
  have dr: "filter (\<lambda>p. fst p \<in> fst ` set (take n xs)) (drop n xs) = []"
    using disj by (auto simp: filter_empty_conv)
  have t': "filter (\<lambda>p. fst p \<notin> fst ` set (take n xs)) (take n xs) = []"
    by (auto simp: filter_empty_conv)
  have dr': "filter (\<lambda>p. fst p \<notin> fst ` set (take n xs)) (drop n xs) = drop n xs"
    using disj by (auto simp: filter_id_conv)
  have "filter (\<lambda>p. fst p \<in> fst ` set (take n xs)) (take n xs @ drop n xs) = take n xs"
    by (simp only: filter_append t dr append_Nil2)
  moreover have "filter (\<lambda>p. fst p \<notin> fst ` set (take n xs)) (take n xs @ drop n xs) = drop n xs"
    by (simp only: filter_append t' dr' append_Nil)
  ultimately show ?thesis by simp
qed

lemma drop_keys_oldest:
  assumes "LRU_wf (lru c)"
  shows "drop_keys (fst ` set (take n (LRU_rbegin (lru c)))) c = evict_oldest n c"
proof -
  let ?xs = "rev (items (lru c))"
  have d: "distinct (map fst ?xs)"
    using assms by (simp add: LRU_wf_def rev_map [symmetric])
  note f = filter_keys_take [OF d, of n]
  have a: "filter (\<lambda>p. fst p \<in> fst ` set (take n ?xs)) (items (lru c)) = rev (take n ?xs)"
    using f rev_filter [of "\<lambda>p. fst p \<in> fst ` set (take n ?xs)" ?xs] by simp
  have b: "filter (\<lambda>p. fst p \<notin> fst ` set (take n ?xs)) (items (lru c)) = rev (drop n ?xs)"
    using f rev_filter [of "\<lambda>p. fst p \<notin> fst ` set (take n ?xs)" ?xs] by simp
  show ?thesis
    unfolding drop_keys_def evict_oldest_def LRU_rbegin_def
    by (simp only: a b sum_sizes_rev)
qed

lemma eviction_by_oldest:
  assumes "LRU_wf (lru c)"
  shows "eviction_by thr c =
     (if usage c \<le> capacity c then c
      else evict_oldest (release_count (usage c - thr c) (LRU_rbegin (lru c)) 0) c)"
  by (simp add: eviction_by_def shortest_prefix_eq drop_keys_oldest [OF assms] Let_def)

lemma map_of_filter_key [simp]: "map_of (filter (\<lambda>p. fst p \<noteq> key) xs) key = None"
  by (simp add: map_of_eq_None_iff image_iff)

lemma Cache_get_eq:
  "Cache_get key c =
     Inr (case map_of (items (lru c)) key of
            None \<Rightarrow> (None, c)
          | Some obj \<Rightarrow> (Some (data obj),
               c\<lparr>lru := (lru c)\<lparr>items := (key, obj) # filter (\<lambda>p. fst p \<noteq> key) (items (lru c))\<rparr>\<rparr>))"
  by (auto simp: Cache_get_def LRU_exists_map_of LRU_get_def split: option.splits)

lemma keys_touch:
  "map_of xs key = Some obj \<Longrightarrow> insert key (fst ` set (filter (\<lambda>p. fst p \<noteq> key) xs)) = fst ` set xs"
  by (force dest: map_of_SomeD)

lemma Cache_insert_locked_eq:
  "Cache_insert_locked key d c =
     Inr (case map_of (items (lru c)) key of
            None \<Rightarrow> c\<lparr>lru := LRU_put key \<lparr>data = d\<rparr> (lru c), usage := usage c + int (data_size d)\<rparr>
          | Some obj \<Rightarrow>
              c\<lparr>usage := usage c - int (data_size (data obj)) + int (data_size d),
                lru := (lru c)\<lparr>items := (key, obj\<lparr>data := d\<rparr>) # filter (\<lambda>p. fst p \<noteq> key) (items (lru c))\<rparr>\<rparr>)"
proof -
  have "map (\<lambda>p. if fst p = key then (fst p, (snd p)\<lparr>data := d\<rparr>) else p) (filter (\<lambda>p. fst p \<noteq> key) xs)
        = filter (\<lambda>p. fst p \<noteq> key) xs" for xs :: "(string \<times> cacheobj) list"
    by (induction xs) auto
  then show ?thesis
    by (auto simp: Cache_insert_locked_def LRU_exists_map_of LRU_get_def LRU_store_data_def
        split: option.splits)
qed

lemma threshhold_default:
  assumes "freemem_percent c = DEFAULT_THRESHHOLD_PERCENT" "0 \<le> capacity c"
  shows "threshhold c =
           int64_of_double (double_mult (double_of_int64 (capacity c)) DEFAULT_THRESHHOLD_PERCENT)"
    and "0 \<le> threshhold c" and "threshhold c \<le> capacity c"
proof -
  let ?pr = "double_mult (double_of_int64 (capacity c)) DEFAULT_THRESHHOLD_PERCENT"
  show eq: "threshhold c = int64_of_double ?pr"
    by (simp add: threshhold_def assms(1))
  note b = double_product_bounds [OF assms(2)]
  from b(1) show "0 \<le> threshhold c"
    by (simp add: eq int64_of_double_def)
  have "\<lfloor>?pr\<rfloor> \<le> \<lfloor>(of_int (capacity c) :: rat)\<rfloor>"
    using b(2) by (rule floor_mono)
  with b(1) show "threshhold c \<le> capacity c"
    by (simp add: eq int64_of_double_def)
qed

lemma threshhold_floor:
  assumes "freemem_percent c = DEFAULT_THRESHHOLD_PERCENT" "0 \<le> capacity c" "capacity c < 2 ^ 48"
  shows "threshhold c = spec_threshold c"
  using double_threshold_floor [OF assms(2,3)]
  by (simp add: threshhold_def spec_threshold_def assms(1))

lemma threshhold_100:
  "int64_of_double (double_mult (double_of_int64 100) DEFAULT_THRESHHOLD_PERCENT) = 85"
  by code_simp

lemma sum_sizes_filter_partition:
  "sum_sizes (filter P xs) + sum_sizes (filter (\<lambda>p. \<not> P p) xs) = sum_sizes xs"
  by (induction xs) auto

lemma LRU_wf_drop_keys: "LRU_wf (lru c) \<Longrightarrow> LRU_wf (lru (drop_keys K c))"
  by (simp add: LRU_wf_def drop_keys_def distinct_map_filter)

lemma cache_inv_drop_keys: "cache_inv c \<Longrightarrow> cache_inv (drop_keys K c)"
  using sum_sizes_filter_partition [of "\<lambda>p. fst p \<in> K" "items (lru c)"]
  by (simp add: cache_inv_def LRU_wf_def drop_keys_def distinct_map_filter)

lemma cache_inv_eviction_by: "cache_inv c \<Longrightarrow> cache_inv (eviction_by thr c)"
  by (simp add: eviction_by_def cache_inv_drop_keys Let_def)

lemma LRU_wf_eviction_by: "LRU_wf (lru c) \<Longrightarrow> LRU_wf (lru (eviction_by thr c))"
  by (simp add: eviction_by_def LRU_wf_drop_keys Let_def)

lemma capacity_eviction_by [simp]: "capacity (eviction_by thr c) = capacity c"
  by (simp add: eviction_by_def drop_keys_def Let_def)

lemma freemem_eviction_by [simp]: "freemem_percent (eviction_by thr c) = freemem_percent c"
  by (simp add: eviction_by_def drop_keys_def Let_def)

lemma cache_inv_construct: "cache_inv (Cache_construct cap n)"
  by (simp add: cache_inv_def LRU_wf_def Cache_construct_def)

lemma cache_inv_clear: "cache_inv (Cache_clear c)"
  by (simp add: cache_inv_def LRU_wf_def Cache_clear_def LRU_clear_def)

lemma cache_inv_erase:
  assumes "cache_inv c"
  shows "Cache_erase key c = Inr (drop_keys {key} c) \<and> cache_inv (drop_keys {key} c)"
proof -
  from assms have "distinct (map fst (items (lru c)))"
    by (simp add: cache_inv_def LRU_wf_def)
  then show ?thesis
    by (simp add: Cache_erase_distinct cache_inv_drop_keys [OF assms])
qed

lemma sum_sizes_touch:
  "distinct (map fst xs) \<Longrightarrow> map_of xs key = Some obj \<Longrightarrow>
   int (data_size (data obj)) + sum_sizes (filter (\<lambda>p. fst p \<noteq> key) xs) = sum_sizes xs"
  using sum_sizes_filter_partition [of "\<lambda>p. fst p = key" xs] sum_sizes_filter_key [of xs key]
  by simp

lemma cache_inv_get:
  assumes "cache_inv c" "Cache_get key c = Inr (r, c')"
  shows "cache_inv c'"
proof (cases "map_of (items (lru c)) key")
  case None
  with assms show ?thesis by (simp add: Cache_get_eq)
next
  case (Some obj)
  with assms sum_sizes_touch [of "items (lru c)" key obj] show ?thesis
    by (auto simp: Cache_get_eq cache_inv_def LRU_wf_def distinct_map_filter)
qed

lemma LRU_wf_insert_locked:
  assumes "LRU_wf (lru c)" "Cache_insert_locked key d c = Inr c'"
  shows "LRU_wf (lru c')"
proof -
  have d: "distinct (key # map fst (filter (\<lambda>p. fst p \<noteq> key) (items (lru c))))"
    using assms(1) by (auto simp: LRU_wf_def distinct_map_filter)
  then have "distinct (map fst (butlast ((key, obj) # filter (\<lambda>p. fst p \<noteq> key) (items (lru c)))))" for obj :: cacheobj
    using distinct_butlast [of "map fst ((key, obj) # filter (\<lambda>p. fst p \<noteq> key) (items (lru c)))"]
    by (simp only: map_butlast list.map fst_conv)
  with d assms(2) show ?thesis
    by (cases "map_of (items (lru c)) key")
       (auto simp: Cache_insert_locked_eq LRU_wf_def LRU_put_def Let_def simp del: butlast.simps)
qed

lemma cache_inv_insert_locked:
  assumes "cache_inv c" "within_count_cap key c" "Cache_insert_locked key d c = Inr c'"
  shows "cache_inv c'"
proof (cases "map_of (items (lru c)) key")
  case None
  then have "key \<notin> fst ` set (items (lru c))" by (simp add: map_of_eq_None_iff)
  then have f: "filter (\<lambda>p. fst p \<noteq> key) (items (lru c)) = items (lru c)"
    by (auto simp: filter_id_conv)
  from None assms(2) have "length (items (lru c)) < max_size (lru c)"
    by (simp add: within_count_cap_def LRU_exists_map_of)
  with None assms f \<open>key \<notin> fst ` set (items (lru c))\<close> show ?thesis
    by (auto simp: Cache_insert_locked_eq cache_inv_def LRU_wf_def LRU_put_def Let_def)
next
  case (Some obj)
  with assms sum_sizes_touch [of "items (lru c)" key obj] show ?thesis
    by (auto simp: Cache_insert_locked_eq cache_inv_def LRU_wf_def distinct_map_filter)
qed

lemma usage_evict_oldest_le:
  assumes "usage c = sum_sizes (items (lru c))" "0 \<le> bound" "thr c \<le> bound"
  shows "usage (evict_oldest (release_count (usage c - thr c) (LRU_rbegin (lru c)) 0) c) \<le> bound"
proof -
  let ?xs = "LRU_rbegin (lru c)"
  let ?n = "release_count (usage c - thr c) ?xs 0"
  have s: "sum_sizes ?xs = usage c" by (simp add: LRU_rbegin_def assms(1))
  have u: "usage (evict_oldest ?n c) = usage c - sum_sizes (take ?n ?xs)"
    by (simp add: evict_oldest_def)
  from release_count_reached [of "usage c - thr c" ?xs 0]
  show ?thesis
  proof
    assume "?n = length ?xs"
    then have "take ?n ?xs = ?xs" by simp
    with u s assms(2) show ?thesis by simp
  next
    assume "usage c - thr c \<le> 0 + sum_sizes (take ?n ?xs)"
    with u assms(3) show ?thesis by simp
  qed
qed

lemma usage_eviction_by_le:
  assumes "cache_inv c" "0 \<le> capacity c" "thr c \<le> capacity c"
  shows "usage (eviction_by thr c) \<le> capacity c"
proof -
  from assms(1) have wf: "LRU_wf (lru c)" and u: "usage c = sum_sizes (items (lru c))"
    by (simp_all add: cache_inv_def)
  show ?thesis
    using usage_evict_oldest_le [of c "capacity c" thr, OF u assms(2) assms(3)]
    by (simp add: eviction_by_oldest [OF wf])
qed

lemma Cache_insert_eq:
  assumes "Cache_insert_locked key d c = Inr c1" "LRU_wf (lru c1)"
  shows "Cache_insert key d c = Inr (eviction_by threshhold c1)"
  using assms by (simp add: Cache_insert_def Cache_free_memory_eq) (simp add: eviction_by_def)

lemma release_count_pos: "0 < delta \<Longrightarrow> xs \<noteq> [] \<Longrightarrow> 0 < release_count delta xs 0"
  by (cases xs) simp_all

lemma length_evict_oldest: "Cache_size (evict_oldest n c) = Cache_size c - n"
  by (simp add: Cache_size_def LRU_size_def evict_oldest_def LRU_rbegin_def)

lemma cacheobj_data_update [simp]: "(obj :: cacheobj)\<lparr>data := d\<rparr> = \<lparr>data = d\<rparr>"
  by (cases obj) simp

lemma map_of_filter_keys:
  "map_of (filter (\<lambda>p. fst p \<notin> K) xs) key = (if key \<in> K then None else map_of xs key)"
  by (induction xs) auto

lemma map_of_LRU_put:
  "map_of (items (LRU_put key v l)) key = None \<or> map_of (items (LRU_put key v l)) key = Some v"
proof -
  have "map_of (butlast ((key, v) # xs)) key = None \<or> map_of (butlast ((key, v) # xs)) key = Some v"
    for xs :: "(string \<times> cacheobj) list"
    by (cases xs) simp_all
  then show ?thesis
    by (simp add: LRU_put_def Let_def del: butlast.simps)
qed

lemma map_of_insert_locked:
  assumes "Cache_insert_locked key d c = Inr c1"
  shows "map_of (items (lru c1)) key = None \<or> map_of (items (lru c1)) key = Some \<lparr>data = d\<rparr>"
proof (cases "map_of (items (lru c)) key")
  case None
  with assms have "lru c1 = LRU_put key \<lparr>data = d\<rparr> (lru c)"
    by (auto simp: Cache_insert_locked_eq)
  then show ?thesis
    using map_of_LRU_put [of key "\<lparr>data = d\<rparr>" "lru c"] by simp
next
  case (Some obj)
  with assms show ?thesis by (auto simp: Cache_insert_locked_eq)
qed

lemma map_of_eviction_by:
  "map_of (items (lru (eviction_by thr c))) key = None \<or>
   map_of (items (lru (eviction_by thr c))) key = map_of (items (lru c)) key"
  by (simp add: eviction_by_def drop_keys_def map_of_filter_keys Let_def)



lemma more_recent_split:
  assumes "more_recent a b c"
  shows "\<exists>pre post. map fst (items (lru c)) = pre @ a # post \<and> b \<in> set post"
proof -
  let ?ks = "map fst (items (lru c))"
  from assms have b: "b \<in> set (tl (dropWhile (\<lambda>k. k \<noteq> a) ?ks))"
    by (simp add: more_recent_def)
  have ne: "dropWhile (\<lambda>k. k \<noteq> a) ?ks \<noteq> []"
  proof
    assume "dropWhile (\<lambda>k. k \<noteq> a) ?ks = []"
    with b show False by (simp only: list.sel list.set empty_iff)
  qed
  then obtain x post where xp: "dropWhile (\<lambda>k. k \<noteq> a) ?ks = x # post"
    by (cases "dropWhile (\<lambda>k. k \<noteq> a) ?ks") auto
  from hd_dropWhile [OF ne] xp have "x = a" by simp
  with xp b have "?ks = takeWhile (\<lambda>k. k \<noteq> a) ?ks @ a # post" "b \<in> set post"
    using takeWhile_dropWhile_id [of "\<lambda>k. k \<noteq> a" ?ks] by simp_all
  then show ?thesis by blast
qed

lemma items_eviction_by:
  assumes "LRU_wf (lru c)"
  shows "\<exists>m. items (lru (eviction_by thr c)) = take m (items (lru c))"
proof (cases "usage c \<le> capacity c")
  case True
  then have "items (lru (eviction_by thr c)) = take (length (items (lru c))) (items (lru c))"
    by (simp add: eviction_by_def)
  then show ?thesis ..
next
  case False
  then have "items (lru (eviction_by thr c)) =
      take (length (items (lru c)) - release_count (usage c - thr c) (rev (items (lru c))) 0)
        (items (lru c))"
    by (simp add: eviction_by_oldest [OF assms] evict_oldest_def LRU_rbegin_def rev_drop)
  then show ?thesis ..
qed

lemma more_recent_after_get:
  assumes "Cache_exists a c" "Cache_exists b c" "a \<noteq> b" "Cache_get a c = Inr (r, c')"
  shows "more_recent a b c'"
proof -
  from assms(1) obtain obj where obj: "map_of (items (lru c)) a = Some obj"
    by (auto simp: Cache_exists_def LRU_exists_map_of)
  from assms(2,3) have "b \<in> set (map fst (filter (\<lambda>p. fst p \<noteq> a) (items (lru c))))"
    by (force simp: Cache_exists_def LRU_exists_def)
  moreover from obj assms(4) have
    "items (lru c') = (a, obj) # filter (\<lambda>p. fst p \<noteq> a) (items (lru c))"
    by (auto simp: Cache_get_eq)
  ultimately show ?thesis
    by (simp add: more_recent_def del: set_map)
qed

text \<open>
  The recency order follows the accesses: a lookup or an insert of \<open>a\<close> makes \<open>a\<close> more
  recent than every other key present, and a lookup of a third key keeps the order of
  \<open>a\<close> and \<open>b\<close>.
\<close>

lemma more_recent_after_insert:
  assumes "Cache_exists b c" "a \<noteq> b" "within_count_cap a c" "Cache_insert_locked a d c = Inr c1"
  shows "more_recent a b c1"
proof -
  from assms(1,2) have b: "b \<in> set (map fst (filter (\<lambda>p. fst p \<noteq> a) (items (lru c))))"
    by (force simp: Cache_exists_def LRU_exists_def)
  have "items (lru c1) = (a, \<lparr>data = d\<rparr>) # filter (\<lambda>p. fst p \<noteq> a) (items (lru c))"
  proof (cases "map_of (items (lru c)) a")
    case None
    then have "a \<notin> fst ` set (items (lru c))" by (simp add: map_of_eq_None_iff)
    then have f: "filter (\<lambda>p. fst p \<noteq> a) (items (lru c)) = items (lru c)"
      by (auto simp: filter_id_conv)
    from None assms(3) have "length (items (lru c)) < max_size (lru c)"
      by (simp add: within_count_cap_def LRU_exists_map_of)
    with None assms(4) f show ?thesis
      by (auto simp: Cache_insert_locked_eq LRU_put_def)
  next
    case (Some obj)
    with assms(4) show ?thesis by (auto simp: Cache_insert_locked_eq)
  qed
  with b show ?thesis by (simp add: more_recent_def del: set_map)
qed

lemma after_first_filter:
  "key \<noteq> a \<Longrightarrow> key \<noteq> b \<Longrightarrow> b \<in> set (tl (dropWhile (\<lambda>k. k \<noteq> a) ks)) \<Longrightarrow>
   b \<in> set (tl (dropWhile (\<lambda>k. k \<noteq> a) (filter (\<lambda>k. k \<noteq> key) ks)))"
  by (induction ks) auto

lemma more_recent_get_other:
  assumes "more_recent a b c" "key \<noteq> a" "key \<noteq> b" "Cache_get key c = Inr (r, c')"
  shows "more_recent a b c'"
proof (cases "map_of (items (lru c)) key")
  case None
  with assms show ?thesis by (simp add: Cache_get_eq)
next
  case (Some obj)
  with assms(4) have "map fst (items (lru c')) = key # filter (\<lambda>k. k \<noteq> key) (map fst (items (lru c)))"
    by (auto simp: Cache_get_eq filter_map comp_def)
  with after_first_filter [OF assms(2,3)] assms(1,2) show ?thesis
    by (simp add: more_recent_def)
qed

lemmas run_simps = and_then_def Cache_construct_def Cache_insert_def Cache_insert_locked_eq LRU_put_def
  Cache_free_memory_eq eviction_by_oldest evict_oldest_def LRU_wf_def LRU_rbegin_def threshhold_def
  threshhold_100 Cache_get_eq Let_def

section \<open>Preservation of the invariants\<close>

text \<open>
  No member function fails, and each keeps the keys of the index distinct: every state that
  a sequential run reaches from a fresh cache has distinct keys, so \<open>LRU_wf\<close> is an
  invariant of the representation and no restriction on the caches the properties are about.
\<close>

lemma LRU_wf_get:
  assumes "LRU_wf (lru c)"
  shows "\<exists>r c'. Cache_get key c = Inr (r, c') \<and> LRU_wf (lru c')"
proof (cases "map_of (items (lru c)) key")
  case None
  with assms show ?thesis by (simp add: Cache_get_eq)
next
  case (Some obj)
  from assms have "distinct (key # map fst (filter (\<lambda>p. fst p \<noteq> key) (items (lru c))))"
    by (auto simp: LRU_wf_def distinct_map_filter)
  with Some show ?thesis by (simp add: Cache_get_eq LRU_wf_def)
qed

lemma LRU_wf_apply_call:
  assumes "LRU_wf (lru c)"
  shows "\<exists>c'. apply_call x c = Inr c' \<and> LRU_wf (lru c')"
proof (cases x)
  case (Insert key d)
  obtain c1 where c1: "Cache_insert_locked key d c = Inr c1"
    by (simp add: Cache_insert_locked_eq)
  have wf1: "LRU_wf (lru c1)" by (rule LRU_wf_insert_locked [OF assms c1])
  from Cache_insert_eq [OF c1 wf1] LRU_wf_eviction_by [OF wf1] Insert show ?thesis by simp
next
  case (Erase key)
  from assms have "distinct (map fst (items (lru c)))" by (simp add: LRU_wf_def)
  from Cache_erase_distinct [OF this] LRU_wf_drop_keys [OF assms] Erase show ?thesis by simp
next
  case Clear
  then show ?thesis by (simp add: Cache_clear_def LRU_clear_def LRU_wf_def)
next
  case (Get key)
  with LRU_wf_get [OF assms, of key] show ?thesis by auto
next
  case (Set_capacity cap)
  show ?thesis
  proof (cases "0 < cap")
    case True
    from assms have wf0: "LRU_wf (lru (c\<lparr>capacity := cap\<rparr>))" by simp
    from Cache_free_memory_eq [OF wf0] LRU_wf_eviction_by [OF wf0] True Set_capacity
    show ?thesis by (simp add: Cache_set_capacity_def)
  next
    case False
    with assms Set_capacity show ?thesis by (simp add: Cache_set_capacity_def)
  qed
qed

lemma LRU_wf_run: "LRU_wf (lru c) \<Longrightarrow> \<exists>c'. run xs c = Inr c' \<and> LRU_wf (lru c')"
proof (induction xs arbitrary: c)
  case Nil
  then show ?case by simp
next
  case (Cons x xs)
  from LRU_wf_apply_call [OF Cons.prems] obtain c1
    where c1: "apply_call x c = Inr c1" "LRU_wf (lru c1)" by blast
  from Cons.IH [OF c1(2)] c1(1) show ?case by (simp add: and_then_def)
qed

lemma LRU_wf_run_fresh: "\<exists>c'. run xs (Cache_construct cap n) = Inr c' \<and> LRU_wf (lru c')"
  by (rule LRU_wf_run) (simp add: Cache_construct_def LRU_wf_def)

text \<open>
  Every member function keeps the accounting invariant, the insert of a new key as long as
  the index has room for it under its cap on the number of entries.
\<close>

lemma cache_inv_free_memory:
  assumes "cache_inv c"
  shows "Cache_free_memory c = Inr (eviction_by threshhold c) \<and> cache_inv (eviction_by threshhold c)"
proof -
  from assms have "LRU_wf (lru c)" by (simp add: cache_inv_def)
  then show ?thesis
    by (simp add: Cache_free_memory_eq cache_inv_eviction_by [OF assms])
qed

lemma cache_inv_set_capacity:
  assumes "cache_inv c" "Cache_set_capacity cap c = Inr c'"
  shows "cache_inv c'"
proof (cases "0 < cap")
  case True
  from assms(1) have "cache_inv (c\<lparr>capacity := cap\<rparr>)" by (simp add: cache_inv_def)
  from cache_inv_free_memory [OF this] True assms(2) show ?thesis
    by (simp add: Cache_set_capacity_def)
next
  case False
  with assms show ?thesis by (simp add: Cache_set_capacity_def)
qed

lemma cache_inv_insert:
  assumes "cache_inv c" "within_count_cap key c"
  shows "\<exists>c'. Cache_insert key d c = Inr c' \<and> cache_inv c'"
proof -
  obtain c1 where c1: "Cache_insert_locked key d c = Inr c1"
    by (simp add: Cache_insert_locked_eq)
  have inv1: "cache_inv c1" by (rule cache_inv_insert_locked [OF assms c1])
  then have "LRU_wf (lru c1)" by (simp add: cache_inv_def)
  from Cache_insert_eq [OF c1 this] cache_inv_eviction_by [OF inv1] show ?thesis by simp
qed

lemma cache_inv_apply_call:
  assumes "cache_inv c" "call_within_cap x c"
  shows "\<exists>c'. apply_call x c = Inr c' \<and> cache_inv c'"
proof (cases x)
  case (Insert key d)
  with assms cache_inv_insert [of c key d] show ?thesis by simp
next
  case (Erase key)
  with cache_inv_erase [OF assms(1), of key] show ?thesis by simp
next
  case Clear
  then show ?thesis by (simp add: cache_inv_clear)
next
  case (Get key)
  obtain r c' where g: "Cache_get key c = Inr (r, c')"
    by (cases "map_of (items (lru c)) key") (simp_all add: Cache_get_eq)
  with Get cache_inv_get [OF assms(1) g] show ?thesis by simp
next
  case (Set_capacity cap)
  have "\<exists>c'. Cache_set_capacity cap c = Inr c'"
  proof (cases "0 < cap")
    case True
    from assms(1) have "cache_inv (c\<lparr>capacity := cap\<rparr>)" by (simp add: cache_inv_def)
    from cache_inv_free_memory [OF this] True show ?thesis
      by (simp add: Cache_set_capacity_def)
  next
    case False
    then show ?thesis by (simp add: Cache_set_capacity_def)
  qed
  then obtain c' where c': "Cache_set_capacity cap c = Inr c'" ..
  with Set_capacity cache_inv_set_capacity [OF assms(1) c'] show ?thesis by simp
qed

lemma cache_inv_run:
  "cache_inv c \<Longrightarrow> run_within_cap xs c \<Longrightarrow> \<exists>c'. run xs c = Inr c' \<and> cache_inv c'"
proof (induction xs arbitrary: c)
  case Nil
  then show ?case by simp
next
  case (Cons x xs)
  from Cons.prems have w: "call_within_cap x c" by simp
  from cache_inv_apply_call [OF Cons.prems(1) w] obtain c1
    where c1: "apply_call x c = Inr c1" "cache_inv c1" by blast
  with Cons.prems(2) have "run_within_cap xs c1" by simp
  from Cons.IH [OF c1(2) this] c1(1) show ?case by (simp add: and_then_def)
qed

lemma cache_inv_run_fresh:
  "run_within_cap xs (Cache_construct cap n) \<Longrightarrow>
   \<exists>c'. run xs (Cache_construct cap n) = Inr c' \<and> usage c' = sum_sizes (items (lru c'))"
  using cache_inv_run [OF cache_inv_construct, of xs cap n] by (auto simp: cache_inv_def)

text \<open>
  A counter that has drifted can stay above the capacity: with room for one entry, after
  inserting \<open>A\<close> (60) and \<open>B\<close> (30), lowering the capacity from 100 to 50 and inserting
  \<open>C\<close> (55), the cache is empty and its usage counter is 60.
\<close>

lemma drifted_counter_above_capacity:
  "run [Insert ''A'' \<lparr>ptr = 1, data_size = 60\<rparr>, Insert ''B'' \<lparr>ptr = 2, data_size = 30\<rparr>,
        Set_capacity 50, Insert ''C'' \<lparr>ptr = 3, data_size = 55\<rparr>] (Cache_construct 100 1) =
   Inr \<lparr>usage = 60, capacity = 50, freemem_percent = DEFAULT_THRESHHOLD_PERCENT,
        lru = \<lparr>items = [], max_size = 1\<rparr>\<rparr>"
  by code_simp

lemma needs_one_removal_pass:
  assumes "LRU_wf (lru c)" "needs_one_removal c"
  shows "eviction_by threshhold c = evict_oldest 1 c"
    and "items (lru (evict_oldest 1 c)) = butlast (items (lru c))"
    and "items (lru c) \<noteq> []"
proof -
  from assms(2) obtain it rest where r: "LRU_rbegin (lru c) = it # rest"
    and over: "capacity c < usage c"
    and d: "0 < usage c - threshhold c"
      "usage c - threshhold c \<le> int (data_size (data (snd it)))"
    by (auto simp: needs_one_removal_def split: list.splits)
  have "release_count (usage c - threshhold c) (LRU_rbegin (lru c)) 0 = Suc 0"
  proof (cases rest)
    case Nil
    with r d show ?thesis by simp
  next
    case (Cons y ys)
    with r d show ?thesis by simp
  qed
  with over show "eviction_by threshhold c = evict_oldest 1 c"
    by (simp add: eviction_by_oldest [OF assms(1)])
  show "items (lru (evict_oldest 1 c)) = butlast (items (lru c))"
    by (simp add: evict_oldest_def LRU_rbegin_def rev_drop butlast_conv_take)
  from r show "items (lru c) \<noteq> []" by (auto simp: LRU_rbegin_def)
qed

section \<open>The properties of the specification\<close>

subsection \<open>Usage accounting\<close>

text \<open>
  C1. The specification states that, after every completed operation of a sequential run
  that starts from a fresh cache, the usage counter is the sum of the sizes of the entries
  in the index. The lemmas of the previous section show this for every operation but one:
  when \<^verbatim>\<open>insert\<close> adds a new key to an index that is at its cap on the number of entries,
  \<open>put\<close> drops the least recently used entry and \<^verbatim>\<open>insert\<close> does not take its size off
  the counter. In a fresh cache of capacity 1000 that holds at most one entry, inserting
  \<open>A\<close> and then \<open>B\<close>, of size 40 each, leaves \<open>B\<close> alone in the index, of size 40, and
  a usage counter of 80.
\<close>

theorem usage_drift_at_count_cap:
  "and_then (Cache_insert ''A'' \<lparr>ptr = 1, data_size = 40\<rparr> (Cache_construct 1000 1))
     (Cache_insert ''B'' \<lparr>ptr = 2, data_size = 40\<rparr>) =
   Inr \<lparr>usage = 80, capacity = 1000, freemem_percent = DEFAULT_THRESHHOLD_PERCENT,
        lru = \<lparr>items = [entry ''B'' 2 40], max_size = 1\<rparr>\<rparr> \<and>
   sum_sizes [entry ''B'' 2 40] = 40"
  by code_simp

subsection \<open>The eviction pass\<close>

text \<open>
  C2, as amended. With usage at most the capacity the pass returns the state unchanged.
  Otherwise, on an index whose keys are distinct, it is the algorithm of the specification,
  \<open>eviction_by\<close>, with the threshold the code computes: the product of the capacity and the
  ratio in double precision, truncated toward zero. It finds the shortest prefix of the
  traversal from the least recently used entry whose sizes add up to at least
  \<open>usage - threshold\<close> (all entries when none does) and erases exactly the keys of that
  prefix. For the ratio 0.85 and a capacity from 0 up to \<open>2^48\<close> the threshold is
  \<open>floor (capacity * 0.85)\<close>, the one of the specification.
\<close>

theorem free_memory_algorithm:
  "(usage c \<le> capacity c \<longrightarrow> Cache_free_memory c = Inr c) \<and>
   (LRU_wf (lru c) \<longrightarrow> Cache_free_memory c = Inr (eviction_by threshhold c)) \<and>
   (LRU_wf (lru c) \<and> freemem_percent c = DEFAULT_THRESHHOLD_PERCENT \<and>
    0 \<le> capacity c \<and> capacity c < 2 ^ 48 \<longrightarrow>
      Cache_free_memory c = Inr (eviction_by spec_threshold c))"
proof -
  have "eviction_by threshhold c = eviction_by spec_threshold c"
    if "freemem_percent c = DEFAULT_THRESHHOLD_PERCENT" "0 \<le> capacity c" "capacity c < 2 ^ 48"
    using threshhold_floor [OF that] by (simp add: eviction_by_def)
  moreover have "Cache_free_memory c = Inr c" if "usage c \<le> capacity c"
    using that by (simp add: Cache_free_memory_def)
  ultimately show ?thesis
    by (simp add: Cache_free_memory_eq)
qed

theorem free_memory_algorithm_witness:
  "LRU_wf (lru (state_of 120 100 [entry ''C'' 3 40, entry ''B'' 2 40, entry ''A'' 1 40])) \<and>
   freemem_percent (state_of 120 100 [entry ''C'' 3 40, entry ''B'' 2 40, entry ''A'' 1 40]) =
     DEFAULT_THRESHHOLD_PERCENT \<and>
   0 \<le> capacity (state_of 120 100 [entry ''C'' 3 40, entry ''B'' 2 40, entry ''A'' 1 40]) \<and>
   capacity (state_of 120 100 [entry ''C'' 3 40, entry ''B'' 2 40, entry ''A'' 1 40]) < 2 ^ 48 \<and>
   eviction_by spec_threshold (state_of 120 100 [entry ''C'' 3 40, entry ''B'' 2 40, entry ''A'' 1 40]) =
     state_of 80 100 [entry ''C'' 3 40, entry ''B'' 2 40] \<and>
   Cache_free_memory (state_of 120 100 [entry ''C'' 3 40, entry ''B'' 2 40, entry ''A'' 1 40]) =
     Inr (state_of 80 100 [entry ''C'' 3 40, entry ''B'' 2 40]) \<and>
   usage (state_of 80 100 [entry ''C'' 3 40, entry ''B'' 2 40]) \<le>
     capacity (state_of 80 100 [entry ''C'' 3 40, entry ''B'' 2 40]) \<and>
   Cache_free_memory (state_of 80 100 [entry ''C'' 3 40, entry ''B'' 2 40]) =
     Inr (state_of 80 100 [entry ''C'' 3 40, entry ''B'' 2 40])"
proof -
  let ?c = "state_of 120 100 [entry ''C'' 3 40, entry ''B'' 2 40, entry ''A'' 1 40]"
  let ?c' = "state_of 80 100 [entry ''C'' 3 40, entry ''B'' 2 40]"
  have wf: "LRU_wf (lru ?c)" by code_simp
  have pc: "freemem_percent ?c = DEFAULT_THRESHHOLD_PERCENT" by code_simp
  have cap: "0 \<le> capacity ?c" by code_simp
  have cap': "capacity ?c < 2 ^ 48" by code_simp
  have ev: "eviction_by spec_threshold ?c = ?c'" by code_simp
  have le: "usage ?c' \<le> capacity ?c'" by code_simp
  have "Cache_free_memory ?c = Inr (eviction_by spec_threshold ?c)"
    using free_memory_algorithm [of ?c] wf pc cap cap' by blast
  then have a: "Cache_free_memory ?c = Inr ?c'" by (simp only: ev)
  have b: "Cache_free_memory ?c' = Inr ?c'"
    using free_memory_algorithm [of ?c'] le by blast
  show ?thesis by (intro conjI wf pc cap cap' ev a le b)
qed

text \<open>
  C2 as the specification words it, with the threshold always the floor of the exact product,
  fails for large and for negative capacities. With capacity 2251799813685267 the double
  product gives the threshold 1914029841632477, one more than the floor: when \<open>Y\<close> is
  inserted after \<open>X\<close> the code needs \<open>delta = 337769972052791\<close>, the size of \<open>X\<close>, and
  erases \<open>X\<close> alone, where the floor asks for one byte more and both entries would go. A
  cache constructed with capacity \<open>-1\<close> keeps an inserted entry of size 0: the code computes
  the threshold 0 and \<open>delta = 0\<close>, whereas the floor is \<open>-1\<close> and the entry would be erased.
\<close>

theorem free_memory_floor_counterexample:
  "Cache_insert_locked ''Y'' \<lparr>ptr = 2, data_size = 1914029841632477\<rparr>
     (state_of 337769972052791 2251799813685267 [entry ''X'' 1 337769972052791]) =
     Inr (state_of 2251799813685268 2251799813685267
            [entry ''Y'' 2 1914029841632477, entry ''X'' 1 337769972052791]) \<and>
   threshhold (state_of 2251799813685268 2251799813685267
            [entry ''Y'' 2 1914029841632477, entry ''X'' 1 337769972052791]) = 1914029841632477 \<and>
   spec_threshold (state_of 2251799813685268 2251799813685267
            [entry ''Y'' 2 1914029841632477, entry ''X'' 1 337769972052791]) = 1914029841632476 \<and>
   Cache_free_memory (state_of 2251799813685268 2251799813685267
            [entry ''Y'' 2 1914029841632477, entry ''X'' 1 337769972052791]) =
     Inr (state_of 1914029841632477 2251799813685267 [entry ''Y'' 2 1914029841632477]) \<and>
   eviction_by spec_threshold (state_of 2251799813685268 2251799813685267
            [entry ''Y'' 2 1914029841632477, entry ''X'' 1 337769972052791]) =
     state_of 0 2251799813685267 [] \<and>
   Cache_insert ''B'' \<lparr>ptr = 1, data_size = 0\<rparr> (Cache_construct (- 1) 10) =
     Inr (state_of 0 (- 1) [entry ''B'' 1 0]) \<and>
   Cache_free_memory (state_of 0 (- 1) [entry ''B'' 1 0]) = Inr (state_of 0 (- 1) [entry ''B'' 1 0]) \<and>
   eviction_by spec_threshold (state_of 0 (- 1) [entry ''B'' 1 0]) = state_of 0 (- 1) []"
proof -
  let ?c = "state_of 2251799813685268 2251799813685267
            [entry ''Y'' 2 1914029841632477, entry ''X'' 1 337769972052791]"
  have t: "int64_of_double (double_mult (double_of_int64 2251799813685267) DEFAULT_THRESHHOLD_PERCENT) =
           1914029841632477"
    by code_simp
  have f: "\<lfloor>38280596832649539 / 20 :: rat\<rfloor> = 1914029841632476"
    by code_simp
  have wf: "LRU_wf (lru ?c)" by (simp add: state_of_def entry_def LRU_wf_def)
  have a: "Cache_insert_locked ''Y'' \<lparr>ptr = 2, data_size = 1914029841632477\<rparr>
     (state_of 337769972052791 2251799813685267 [entry ''X'' 1 337769972052791]) = Inr ?c"
    by (simp add: Cache_insert_locked_eq state_of_def entry_def LRU_put_def)
  have thr: "threshhold ?c = 1914029841632477"
    by (simp add: threshhold_def state_of_def t)
  have sthr: "spec_threshold ?c = 1914029841632476"
    by (simp add: spec_threshold_def state_of_def f)
  have b: "Cache_free_memory ?c =
     Inr (state_of 1914029841632477 2251799813685267 [entry ''Y'' 2 1914029841632477])"
    by (simp only: Cache_free_memory_eq [OF wf] eviction_by_oldest [OF wf] thr)
       (simp add: state_of_def entry_def evict_oldest_def LRU_rbegin_def)
  have c: "eviction_by spec_threshold ?c = state_of 0 2251799813685267 []"
    by (simp only: eviction_by_oldest [OF wf] sthr)
       (simp add: state_of_def entry_def evict_oldest_def LRU_rbegin_def)
  have d: "Cache_insert ''B'' \<lparr>ptr = 1, data_size = 0\<rparr> (Cache_construct (- 1) 10) =
     Inr (state_of 0 (- 1) [entry ''B'' 1 0])"
    by code_simp
  have e: "Cache_free_memory (state_of 0 (- 1) [entry ''B'' 1 0]) = Inr (state_of 0 (- 1) [entry ''B'' 1 0])"
    by code_simp
  have g: "eviction_by spec_threshold (state_of 0 (- 1) [entry ''B'' 1 0]) = state_of 0 (- 1) []"
    by code_simp
  show ?thesis by (intro conjI a thr sthr b c d e g)
qed

text \<open>
  Where the counter is the sum of the sizes of the entries present when the eviction pass
  of an insert starts, and that sum exceeds the capacity by less than the sum itself, the
  insert returns a cache whose usage is at most its capacity.
\<close>

theorem capacity_convergence:
  assumes "Cache_insert_locked key d c = Inr c1"
    and "LRU_wf (lru c1)"
    and "usage c1 = sum_sizes (items (lru c1))"
    and "freemem_percent c1 = DEFAULT_THRESHHOLD_PERCENT"
    and "capacity c1 < sum_sizes (items (lru c1))"
    and "sum_sizes (items (lru c1)) - capacity c1 < sum_sizes (items (lru c1))"
  shows "\<exists>c2. Cache_insert key d c = Inr c2 \<and> usage c2 \<le> capacity c2"
proof -
  have inv: "cache_inv c1" using assms(2,3) by (simp add: cache_inv_def)
  have cap: "0 \<le> capacity c1" using assms(6) by simp
  have "usage (eviction_by threshhold c1) \<le> capacity c1"
    by (rule usage_eviction_by_le [of c1 threshhold, OF inv cap threshhold_default(3) [OF assms(4) cap]])
  then show ?thesis
    by (simp add: Cache_insert_eq [OF assms(1,2)])
qed

theorem capacity_convergence_witness:
  "Cache_insert_locked ''C'' \<lparr>ptr = 3, data_size = 40\<rparr> (state_of 80 100 [entry ''B'' 2 40, entry ''A'' 1 40]) =
     Inr (state_of 120 100 [entry ''C'' 3 40, entry ''B'' 2 40, entry ''A'' 1 40]) \<and>
   LRU_wf (lru (state_of 120 100 [entry ''C'' 3 40, entry ''B'' 2 40, entry ''A'' 1 40])) \<and>
   usage (state_of 120 100 [entry ''C'' 3 40, entry ''B'' 2 40, entry ''A'' 1 40]) =
     sum_sizes (items (lru (state_of 120 100 [entry ''C'' 3 40, entry ''B'' 2 40, entry ''A'' 1 40]))) \<and>
   freemem_percent (state_of 120 100 [entry ''C'' 3 40, entry ''B'' 2 40, entry ''A'' 1 40]) =
     DEFAULT_THRESHHOLD_PERCENT \<and>
   capacity (state_of 120 100 [entry ''C'' 3 40, entry ''B'' 2 40, entry ''A'' 1 40]) <
     sum_sizes (items (lru (state_of 120 100 [entry ''C'' 3 40, entry ''B'' 2 40, entry ''A'' 1 40]))) \<and>
   sum_sizes (items (lru (state_of 120 100 [entry ''C'' 3 40, entry ''B'' 2 40, entry ''A'' 1 40]))) -
       capacity (state_of 120 100 [entry ''C'' 3 40, entry ''B'' 2 40, entry ''A'' 1 40]) <
     sum_sizes (items (lru (state_of 120 100 [entry ''C'' 3 40, entry ''B'' 2 40, entry ''A'' 1 40]))) \<and>
   (\<exists>c2. Cache_insert ''C'' \<lparr>ptr = 3, data_size = 40\<rparr>
           (state_of 80 100 [entry ''B'' 2 40, entry ''A'' 1 40]) = Inr c2 \<and>
         usage c2 \<le> capacity c2)"
proof -
  let ?c = "state_of 80 100 [entry ''B'' 2 40, entry ''A'' 1 40]"
  let ?c1 = "state_of 120 100 [entry ''C'' 3 40, entry ''B'' 2 40, entry ''A'' 1 40]"
  have h1: "Cache_insert_locked ''C'' \<lparr>ptr = 3, data_size = 40\<rparr> ?c = Inr ?c1" by code_simp
  have h2: "LRU_wf (lru ?c1)" by code_simp
  have h3: "usage ?c1 = sum_sizes (items (lru ?c1))" by code_simp
  have h4: "freemem_percent ?c1 = DEFAULT_THRESHHOLD_PERCENT" by code_simp
  have h5: "capacity ?c1 < sum_sizes (items (lru ?c1))" by code_simp
  have h6: "sum_sizes (items (lru ?c1)) - capacity ?c1 < sum_sizes (items (lru ?c1))" by code_simp
  show ?thesis
    by (intro conjI h1 h2 h3 h4 h5 h6 capacity_convergence [OF h1 h2 h3 h4 h5 h6])
qed



text \<open>
  C4, as amended. Let the keys of the index be distinct and let \<open>a\<close> have been used more
  recently than \<open>b\<close>. An eviction pass never removes \<open>a\<close> and keeps \<open>b\<close>. A pass that
  needs exactly one removal, because the size of the least recently used entry alone reaches
  \<open>delta\<close>, removes that entry and no other: it keeps \<open>a\<close>, and it removes \<open>b\<close> exactly
  when \<open>b\<close> is the least recently used key.
\<close>

theorem lru_order_eviction:
  assumes "LRU_wf (lru c)" "more_recent a b c"
  shows "\<exists>c'. Cache_free_memory c = Inr c' \<and>
           (Cache_exists b c' \<longrightarrow> Cache_exists a c') \<and>
           (needs_one_removal c \<longrightarrow>
              items (lru c') = butlast (items (lru c)) \<and> Cache_exists a c' \<and>
              (Cache_exists b c' \<longleftrightarrow> b \<noteq> fst (last (items (lru c)))))"
proof -
  let ?xs = "items (lru c)"
  let ?ks = "map fst ?xs"
  let ?c' = "eviction_by threshhold c"
  from assms(1) have d: "distinct ?ks" by (simp add: LRU_wf_def)
  from more_recent_split [OF assms(2)] obtain pre post
    where ks: "?ks = pre @ a # post" and b: "b \<in> set post" by blast
  from d ks b have bpre: "b \<notin> set pre" and ba: "b \<noteq> a" by auto
  have fm: "Cache_free_memory c = Inr ?c'"
    by (rule Cache_free_memory_eq [OF assms(1)])
  from items_eviction_by [OF assms(1), of threshhold] obtain m
    where m: "items (lru ?c') = take m ?xs" by auto
  then have keys': "map fst (items (lru ?c')) = take m ?ks" by (simp add: take_map)
  have ex: "Cache_exists k ?c' \<longleftrightarrow> k \<in> set (take m ?ks)" for k
    by (simp add: Cache_exists_def LRU_exists_def keys' del: set_map)
  have order: "a \<in> set (take m ?ks)" if "b \<in> set (take m ?ks)"
  proof -
    from that ks have "b \<in> set (take m pre) \<or> b \<in> set (take (m - length pre) (a # post))"
      by simp
    moreover have "b \<notin> set (take m pre)" using bpre by (auto dest: in_set_takeD)
    ultimately have "b \<in> set (take (m - length pre) (a # post))" by simp
    then have "a \<in> set (take (m - length pre) (a # post))"
      by (cases "m - length pre") simp_all
    with ks show ?thesis by simp
  qed
  have one: "items (lru ?c') = butlast ?xs \<and> Cache_exists a ?c' \<and>
            (Cache_exists b ?c' \<longleftrightarrow> b \<noteq> fst (last ?xs))"
    if n1: "needs_one_removal c"
  proof -
    note p = needs_one_removal_pass [OF assms(1) n1]
    have bl: "items (lru ?c') = butlast ?xs" by (simp only: p(1) p(2))
    then have keys_bl: "map fst (items (lru ?c')) = butlast ?ks" by (simp add: map_butlast)
    from b have pne: "post \<noteq> []" by auto
    then have "butlast ?ks = pre @ a # butlast post"
      by (simp add: ks butlast_append)
    then have a_in: "Cache_exists a ?c'"
      by (simp add: Cache_exists_def LRU_exists_def keys_bl del: set_map)
    from ks have kne: "?ks \<noteq> []" by simp
    then have split: "?ks = butlast ?ks @ [last ?ks]" by simp
    have bin: "b \<in> set ?ks" using ks b by simp
    have "b \<in> set (butlast ?ks) \<longleftrightarrow> b \<noteq> last ?ks"
    proof
      assume "b \<in> set (butlast ?ks)"
      moreover have "distinct (butlast ?ks @ [last ?ks])" using d split by simp
      ultimately show "b \<noteq> last ?ks" by auto
    next
      assume "b \<noteq> last ?ks"
      moreover have "b \<in> set (butlast ?ks @ [last ?ks])" using bin split by simp
      ultimately show "b \<in> set (butlast ?ks)" by simp
    qed
    moreover have "last ?ks = fst (last ?xs)"
      using kne by (simp add: last_map)
    ultimately have "Cache_exists b ?c' \<longleftrightarrow> b \<noteq> fst (last ?xs)"
      by (simp add: Cache_exists_def LRU_exists_def keys_bl del: set_map)
    with a_in bl show ?thesis by simp
  qed
  have "Cache_exists b ?c' \<longrightarrow> Cache_exists a ?c'"
    using order by (simp add: ex)
  with fm one show ?thesis by blast
qed

theorem lru_order_eviction_witness:
  "LRU_wf (lru (state_of 120 100 [entry ''A'' 3 40, entry ''B'' 2 40, entry ''X'' 1 40])) \<and>
   more_recent ''A'' ''B'' (state_of 120 100 [entry ''A'' 3 40, entry ''B'' 2 40, entry ''X'' 1 40]) \<and>
   needs_one_removal (state_of 120 100 [entry ''A'' 3 40, entry ''B'' 2 40, entry ''X'' 1 40]) \<and>
   Cache_free_memory (state_of 120 100 [entry ''A'' 3 40, entry ''B'' 2 40, entry ''X'' 1 40]) =
     Inr (state_of 80 100 [entry ''A'' 3 40, entry ''B'' 2 40]) \<and>
   Cache_exists ''B'' (state_of 80 100 [entry ''A'' 3 40, entry ''B'' 2 40]) \<and>
   Cache_exists ''A'' (state_of 80 100 [entry ''A'' 3 40, entry ''B'' 2 40]) \<and>
   ''B'' \<noteq> fst (last (items (lru (state_of 120 100 [entry ''A'' 3 40, entry ''B'' 2 40, entry ''X'' 1 40])))) \<and>
   LRU_wf (lru (state_of 80 48 [entry ''A'' 2 40, entry ''B'' 1 40])) \<and>
   more_recent ''A'' ''B'' (state_of 80 48 [entry ''A'' 2 40, entry ''B'' 1 40]) \<and>
   needs_one_removal (state_of 80 48 [entry ''A'' 2 40, entry ''B'' 1 40]) \<and>
   Cache_free_memory (state_of 80 48 [entry ''A'' 2 40, entry ''B'' 1 40]) =
     Inr (state_of 40 48 [entry ''A'' 2 40]) \<and>
   Cache_exists ''A'' (state_of 40 48 [entry ''A'' 2 40]) \<and>
   \<not> Cache_exists ''B'' (state_of 40 48 [entry ''A'' 2 40])"
proof -
  let ?c = "state_of 120 100 [entry ''A'' 3 40, entry ''B'' 2 40, entry ''X'' 1 40]"
  let ?c' = "state_of 80 100 [entry ''A'' 3 40, entry ''B'' 2 40]"
  let ?d = "state_of 80 48 [entry ''A'' 2 40, entry ''B'' 1 40]"
  let ?d' = "state_of 40 48 [entry ''A'' 2 40]"
  have h1: "LRU_wf (lru ?c)" by code_simp
  have h2: "more_recent ''A'' ''B'' ?c" by code_simp
  have h3: "needs_one_removal ?c" by code_simp
  have h4: "Cache_free_memory ?c = Inr ?c'" by code_simp
  have h5: "Cache_exists ''B'' ?c'" by code_simp
  have k1: "LRU_wf (lru ?d)" by code_simp
  have k2: "more_recent ''A'' ''B'' ?d" by code_simp
  have k3: "needs_one_removal ?d" by code_simp
  have k4: "Cache_free_memory ?d = Inr ?d'" by code_simp
  have k5: "fst (last (items (lru ?d))) = ''B''" by code_simp
  from lru_order_eviction [OF h1 h2] h3 h4 h5
  have r1: "Cache_exists ''A'' ?c'" "''B'' \<noteq> fst (last (items (lru ?c)))" by auto
  from lru_order_eviction [OF k1 k2] k3 k4 k5
  have r2: "Cache_exists ''A'' ?d'" "\<not> Cache_exists ''B'' ?d'" by auto
  show ?thesis by (intro conjI h1 h2 h3 h4 h5 r1 k1 k2 k3 k4 r2)
qed

text \<open>
  C4 as the specification words it, that the pass removes \<open>b\<close>, fails when a third key is
  older than \<open>b\<close>. After inserting \<open>X\<close>, \<open>B\<close> and \<open>A\<close>, of size 30 each, into a cache of
  capacity 100, \<open>A\<close> is more recent than \<open>B\<close>; lowering the capacity to 80 runs a pass that
  removes one entry, and it is \<open>X\<close>: \<open>B\<close> stays.
\<close>

theorem lru_order_counterexample:
  "and_then (and_then (Cache_insert ''X'' \<lparr>ptr = 1, data_size = 30\<rparr> (Cache_construct 100 10))
       (Cache_insert ''B'' \<lparr>ptr = 2, data_size = 30\<rparr>))
     (Cache_insert ''A'' \<lparr>ptr = 3, data_size = 30\<rparr>) =
     Inr (state_of 90 100 [entry ''A'' 3 30, entry ''B'' 2 30, entry ''X'' 1 30]) \<and>
   more_recent ''A'' ''B'' (state_of 90 100 [entry ''A'' 3 30, entry ''B'' 2 30, entry ''X'' 1 30]) \<and>
   Cache_set_capacity 80 (state_of 90 100 [entry ''A'' 3 30, entry ''B'' 2 30, entry ''X'' 1 30]) =
     Inr (state_of 60 80 [entry ''A'' 3 30, entry ''B'' 2 30]) \<and>
   Cache_free_memory (state_of 90 80 [entry ''A'' 3 30, entry ''B'' 2 30, entry ''X'' 1 30]) =
     Inr (state_of 60 80 [entry ''A'' 3 30, entry ''B'' 2 30]) \<and>
   Cache_size (state_of 90 80 [entry ''A'' 3 30, entry ''B'' 2 30, entry ''X'' 1 30]) =
     Suc (Cache_size (state_of 60 80 [entry ''A'' 3 30, entry ''B'' 2 30])) \<and>
   Cache_exists ''B'' (state_of 60 80 [entry ''A'' 3 30, entry ''B'' 2 30])"
  by code_simp

subsection \<open>Insertion\<close>

text \<open>
  C5. A fresh cache of capacity 100 with the ratio 0.85 and room for at least three entries:
  inserting \<open>A\<close>, \<open>B\<close> and \<open>C\<close>, of size 40 each, leaves \<open>C\<close> and \<open>B\<close> with usage 80;
  looking \<open>B\<close> up and inserting \<open>D\<close> of size 50 then leaves \<open>D\<close> alone with usage 50.
\<close>

theorem scenario:
  assumes "3 \<le> n" "data_size dA = 40" "data_size dB = 40" "data_size dC = 40" "data_size dD = 50"
  shows "\<exists>c3 c4 c5.
     and_then (and_then (Cache_insert ''A'' dA (Cache_construct 100 n)) (Cache_insert ''B'' dB))
       (Cache_insert ''C'' dC) = Inr c3 \<and>
     items (lru c3) = [(''C'', \<lparr>data = dC\<rparr>), (''B'', \<lparr>data = dB\<rparr>)] \<and> usage c3 = 80 \<and>
     Cache_get ''B'' c3 = Inr (Some dB, c4) \<and>
     Cache_insert ''D'' dD c4 = Inr c5 \<and>
     items (lru c5) = [(''D'', \<lparr>data = dD\<rparr>)] \<and> usage c5 = 50"
  using assms by (simp add: run_simps)

theorem scenario_witness:
  "(3::nat) \<le> 10 \<and>
   (\<exists>c3 c4 c5.
     and_then (and_then (Cache_insert ''A'' \<lparr>ptr = 1, data_size = 40\<rparr> (Cache_construct 100 10))
         (Cache_insert ''B'' \<lparr>ptr = 2, data_size = 40\<rparr>))
       (Cache_insert ''C'' \<lparr>ptr = 3, data_size = 40\<rparr>) = Inr c3 \<and>
     items (lru c3) = [entry ''C'' 3 40, entry ''B'' 2 40] \<and> usage c3 = 80 \<and>
     Cache_get ''B'' c3 = Inr (Some \<lparr>ptr = 2, data_size = 40\<rparr>, c4) \<and>
     Cache_insert ''D'' \<lparr>ptr = 4, data_size = 50\<rparr> c4 = Inr c5 \<and>
     items (lru c5) = [entry ''D'' 4 50] \<and> usage c5 = 50)"
  using scenario [of 10 "\<lparr>ptr = 1, data_size = 40\<rparr>" "\<lparr>ptr = 2, data_size = 40\<rparr>"
      "\<lparr>ptr = 3, data_size = 40\<rparr>" "\<lparr>ptr = 4, data_size = 50\<rparr>"]
  by (simp add: entry_def)

text \<open>
  C6, as amended. Inserting a key that is present with an entry \<open>obj\<close> stores the new
  payload under the key, moves the key to the most recently used position and changes the
  usage by the new size minus the old size: this is the state after the locked block of
  \<^verbatim>\<open>insert\<close>, and it is the state \<^verbatim>\<open>insert\<close> returns when the new usage does not exceed
  the capacity, so that no eviction pass follows.
\<close>

theorem overwrite_semantics:
  assumes "map_of (items (lru c)) key = Some obj"
  shows "Cache_insert_locked key d c =
           Inr (c\<lparr>usage := usage c + (int (data_size d) - int (data_size (data obj))),
                  lru := (lru c)\<lparr>items := (key, \<lparr>data = d\<rparr>) # filter (\<lambda>p. fst p \<noteq> key) (items (lru c))\<rparr>\<rparr>) \<and>
         (usage c + (int (data_size d) - int (data_size (data obj))) \<le> capacity c \<longrightarrow>
          Cache_insert key d c =
           Inr (c\<lparr>usage := usage c + (int (data_size d) - int (data_size (data obj))),
                  lru := (lru c)\<lparr>items := (key, \<lparr>data = d\<rparr>) # filter (\<lambda>p. fst p \<noteq> key) (items (lru c))\<rparr>\<rparr>))"
proof -
  have "usage c - int (data_size (data obj)) + int (data_size d) =
        usage c + (int (data_size d) - int (data_size (data obj)))" by simp
  then show ?thesis
    using assms by (simp add: Cache_insert_def Cache_insert_locked_eq)
qed

theorem overwrite_semantics_witness:
  "map_of (items (lru (state_of 70 100 [entry ''B'' 2 30, entry ''A'' 1 40]))) ''A'' =
     Some \<lparr>data = \<lparr>ptr = 1, data_size = 40\<rparr>\<rparr> \<and>
   usage (state_of 70 100 [entry ''B'' 2 30, entry ''A'' 1 40]) +
     (int (data_size \<lparr>ptr = 3, data_size = 60\<rparr>) -
      int (data_size (data \<lparr>data = \<lparr>ptr = 1, data_size = 40\<rparr>\<rparr>))) \<le>
     capacity (state_of 70 100 [entry ''B'' 2 30, entry ''A'' 1 40]) \<and>
   Cache_insert ''A'' \<lparr>ptr = 3, data_size = 60\<rparr> (state_of 70 100 [entry ''B'' 2 30, entry ''A'' 1 40]) =
     Inr (state_of 90 100 [entry ''A'' 3 60, entry ''B'' 2 30])"
proof -
  let ?c = "state_of 70 100 [entry ''B'' 2 30, entry ''A'' 1 40]"
  let ?obj = "\<lparr>data = \<lparr>ptr = 1, data_size = 40\<rparr>\<rparr>"
  let ?d = "\<lparr>ptr = 3, data_size = 60\<rparr>"
  have h1: "map_of (items (lru ?c)) ''A'' = Some ?obj" by code_simp
  have h2: "usage ?c + (int (data_size ?d) - int (data_size (data ?obj))) \<le> capacity ?c"
    by code_simp
  have e: "?c\<lparr>usage := usage ?c + (int (data_size ?d) - int (data_size (data ?obj))),
             lru := (lru ?c)\<lparr>items := (''A'', \<lparr>data = ?d\<rparr>) # filter (\<lambda>p. fst p \<noteq> ''A'') (items (lru ?c))\<rparr>\<rparr> =
           state_of 90 100 [entry ''A'' 3 60, entry ''B'' 2 30]"
    by code_simp
  from overwrite_semantics [OF h1, of ?d] h2
  have "Cache_insert ''A'' ?d ?c =
     Inr (?c\<lparr>usage := usage ?c + (int (data_size ?d) - int (data_size (data ?obj))),
             lru := (lru ?c)\<lparr>items := (''A'', \<lparr>data = ?d\<rparr>) # filter (\<lambda>p. fst p \<noteq> ''A'') (items (lru ?c))\<rparr>\<rparr>)"
    by blast
  then have "Cache_insert ''A'' ?d ?c = Inr (state_of 90 100 [entry ''A'' 3 60, entry ''B'' 2 30])"
    by (simp only: e)
  then show ?thesis by (intro conjI h1 h2)
qed

text \<open>
  C6 as the specification words it fails when the overwrite lifts the usage above the
  capacity: the eviction pass that \<^verbatim>\<open>insert\<close> then runs may remove the key itself. In a
  cache of capacity 100 that holds \<open>A\<close> with size 40, inserting \<open>A\<close> with a payload of size
  200 returns the empty cache with usage 0.
\<close>

theorem overwrite_counterexample:
  "Cache_insert ''A'' \<lparr>ptr = 1, data_size = 40\<rparr> (Cache_construct 100 10) =
     Inr (state_of 40 100 [entry ''A'' 1 40]) \<and>
   Cache_exists ''A'' (state_of 40 100 [entry ''A'' 1 40]) \<and>
   Cache_insert ''A'' \<lparr>ptr = 2, data_size = 200\<rparr> (state_of 40 100 [entry ''A'' 1 40]) =
     Inr (state_of 0 100 []) \<and>
   \<not> Cache_exists ''A'' (state_of 0 100 []) \<and>
   usage (state_of 0 100 []) \<noteq> usage (state_of 40 100 [entry ''A'' 1 40]) + (200 - 40)"
  by code_simp




subsection \<open>Changing the capacity\<close>

text \<open>
  A new capacity that is not positive leaves the cache as it is, without an error. A positive
  one replaces the capacity and runs the eviction pass on the result. When the usage does not
  exceed the new capacity the pass removes nothing: only the capacity changes. When the usage
  exceeds the new capacity and is the sum of the sizes of the entries present, the pass
  removes entries.
\<close>

theorem set_capacity_semantics:
  "(new_capacity \<le> 0 \<longrightarrow> Cache_set_capacity new_capacity c = Inr c) \<and>
   (0 < new_capacity \<longrightarrow>
      Cache_set_capacity new_capacity c = Cache_free_memory (c\<lparr>capacity := new_capacity\<rparr>)) \<and>
   (0 < new_capacity \<and> usage c \<le> new_capacity \<longrightarrow>
      Cache_set_capacity new_capacity c = Inr (c\<lparr>capacity := new_capacity\<rparr>)) \<and>
   (0 < new_capacity \<and> new_capacity < usage c \<and> cache_inv c \<and>
    freemem_percent c = DEFAULT_THRESHHOLD_PERCENT \<longrightarrow>
      (\<exists>c'. Cache_set_capacity new_capacity c = Inr c' \<and> capacity c' = new_capacity \<and>
            Cache_size c' < Cache_size c))"
proof -
  let ?c0 = "c\<lparr>capacity := new_capacity\<rparr>"
  have shrink: "\<exists>c'. Cache_set_capacity new_capacity c = Inr c' \<and> capacity c' = new_capacity \<and>
            Cache_size c' < Cache_size c"
    if pos: "0 < new_capacity" and over: "new_capacity < usage c" and inv: "cache_inv c"
      and pc: "freemem_percent c = DEFAULT_THRESHHOLD_PERCENT"
  proof -
    from inv have inv0: "cache_inv ?c0" by (simp add: cache_inv_def)
    then have wf0: "LRU_wf (lru ?c0)" by (simp add: cache_inv_def)
    have pc0: "freemem_percent ?c0 = DEFAULT_THRESHHOLD_PERCENT" using pc by simp
    have cap0: "0 \<le> capacity ?c0" using pos by simp
    note thr = threshhold_default [OF pc0 cap0]
    have eq: "Cache_set_capacity new_capacity c = Inr (eviction_by threshhold ?c0)"
      using pos by (simp add: Cache_set_capacity_def Cache_free_memory_eq [OF wf0])
    from inv over pos have "0 < sum_sizes (items (lru c))" by (simp add: cache_inv_def)
    then have ne: "LRU_rbegin (lru ?c0) \<noteq> []" by (auto simp: LRU_rbegin_def)
    have "0 < usage ?c0 - threshhold ?c0" using thr(3) over by simp
    from release_count_pos [OF this ne] ne over
    have "Cache_size (eviction_by threshhold ?c0) < Cache_size c"
      by (simp add: eviction_by_oldest [OF wf0] length_evict_oldest)
         (simp add: Cache_size_def LRU_size_def LRU_rbegin_def)
    with eq show ?thesis by simp
  qed
  have "new_capacity \<le> 0 \<longrightarrow> Cache_set_capacity new_capacity c = Inr c"
    by (simp add: Cache_set_capacity_def)
  moreover have "0 < new_capacity \<longrightarrow>
      Cache_set_capacity new_capacity c = Cache_free_memory ?c0"
    by (simp add: Cache_set_capacity_def)
  moreover have "0 < new_capacity \<and> usage c \<le> new_capacity \<longrightarrow>
      Cache_set_capacity new_capacity c = Inr ?c0"
    by (simp add: Cache_set_capacity_def Cache_free_memory_def)
  ultimately show ?thesis using shrink by blast
qed

theorem set_capacity_semantics_witness:
  "(0::int) \<le> 0 \<and>
   Cache_set_capacity 0 (state_of 120 200 [entry ''C'' 3 40, entry ''B'' 2 40, entry ''A'' 1 40]) =
     Inr (state_of 120 200 [entry ''C'' 3 40, entry ''B'' 2 40, entry ''A'' 1 40]) \<and>
   (0::int) < 100 \<and>
   100 < usage (state_of 120 200 [entry ''C'' 3 40, entry ''B'' 2 40, entry ''A'' 1 40]) \<and>
   cache_inv (state_of 120 200 [entry ''C'' 3 40, entry ''B'' 2 40, entry ''A'' 1 40]) \<and>
   freemem_percent (state_of 120 200 [entry ''C'' 3 40, entry ''B'' 2 40, entry ''A'' 1 40]) =
     DEFAULT_THRESHHOLD_PERCENT \<and>
   (\<exists>c'. Cache_set_capacity 100 (state_of 120 200 [entry ''C'' 3 40, entry ''B'' 2 40, entry ''A'' 1 40]) = Inr c' \<and>
         capacity c' = 100 \<and>
         Cache_size c' < Cache_size (state_of 120 200 [entry ''C'' 3 40, entry ''B'' 2 40, entry ''A'' 1 40])) \<and>
   (0::int) < 150 \<and>
   usage (state_of 120 200 [entry ''C'' 3 40, entry ''B'' 2 40, entry ''A'' 1 40]) \<le> 150 \<and>
   Cache_set_capacity 150 (state_of 120 200 [entry ''C'' 3 40, entry ''B'' 2 40, entry ''A'' 1 40]) =
     Inr (state_of 120 150 [entry ''C'' 3 40, entry ''B'' 2 40, entry ''A'' 1 40])"
proof -
  let ?c = "state_of 120 200 [entry ''C'' 3 40, entry ''B'' 2 40, entry ''A'' 1 40]"
  have h1: "cache_inv ?c" by code_simp
  have h2: "freemem_percent ?c = DEFAULT_THRESHHOLD_PERCENT" by code_simp
  have h3: "usage ?c \<le> 150" by code_simp
  have h4: "(100::int) < usage ?c" by code_simp
  have e: "?c\<lparr>capacity := 150\<rparr> = state_of 120 150 [entry ''C'' 3 40, entry ''B'' 2 40, entry ''A'' 1 40]"
    by code_simp
  have p0: "(0::int) \<le> 0" and p1: "(0::int) < 100" and p2: "(0::int) < 150" by simp_all
  have a: "Cache_set_capacity 0 ?c = Inr ?c"
    using set_capacity_semantics [of 0 ?c] p0 by blast
  have b: "\<exists>c'. Cache_set_capacity 100 ?c = Inr c' \<and> capacity c' = 100 \<and> Cache_size c' < Cache_size ?c"
    using set_capacity_semantics [of 100 ?c] p1 h1 h2 h4 by blast
  have "\<exists>c'. Cache_set_capacity 150 ?c = Inr c' \<and> c' = ?c\<lparr>capacity := 150\<rparr>"
    using set_capacity_semantics [of 150 ?c] p2 h1 h2 h3 by blast
  then have c: "Cache_set_capacity 150 ?c = Inr (state_of 120 150 [entry ''C'' 3 40, entry ''B'' 2 40, entry ''A'' 1 40])"
    by (simp only: e) blast
  show ?thesis by (intro conjI h1 h2 h3 h4 a b c p0 p1 p2)
qed

text \<open>
  C7. The specification states that, for every cache state, a new capacity that is not
  positive is ignored and a positive one replaces the capacity and runs the eviction pass,
  which removes entries exactly when the usage exceeds the new capacity. The code removes
  nothing when the index is empty while the counter has drifted at the cap on the number of
  entries (see C1). In a cache of capacity 100 with room for one entry, inserting \<open>A\<close> (60)
  and \<open>B\<close> (30) and lowering the capacity to 50 leaves an empty index and a usage counter
  of 60; lowering the capacity to 40 then removes no entry although the usage 60 exceeds 40.
\<close>

theorem set_capacity_drift:
  "run [Insert ''A'' \<lparr>ptr = 1, data_size = 60\<rparr>, Insert ''B'' \<lparr>ptr = 2, data_size = 30\<rparr>,
        Set_capacity 50] (Cache_construct 100 1) =
     Inr \<lparr>usage = 60, capacity = 50, freemem_percent = DEFAULT_THRESHHOLD_PERCENT,
          lru = \<lparr>items = [], max_size = 1\<rparr>\<rparr> \<and>
   (0::int) < 40 \<and>
   40 < usage \<lparr>usage = 60, capacity = 50, freemem_percent = DEFAULT_THRESHHOLD_PERCENT,
               lru = \<lparr>items = [], max_size = 1\<rparr>\<rparr> \<and>
   Cache_set_capacity 40
     \<lparr>usage = 60, capacity = 50, freemem_percent = DEFAULT_THRESHHOLD_PERCENT,
      lru = \<lparr>items = [], max_size = 1\<rparr>\<rparr> =
     Inr \<lparr>usage = 60, capacity = 40, freemem_percent = DEFAULT_THRESHHOLD_PERCENT,
          lru = \<lparr>items = [], max_size = 1\<rparr>\<rparr> \<and>
   Cache_size \<lparr>usage = 60, capacity = 40, freemem_percent = DEFAULT_THRESHHOLD_PERCENT,
               lru = \<lparr>items = [], max_size = 1\<rparr>\<rparr> =
     Cache_size \<lparr>usage = 60, capacity = 50, freemem_percent = DEFAULT_THRESHHOLD_PERCENT,
                 lru = \<lparr>items = [], max_size = 1\<rparr>\<rparr>"
  by code_simp

subsection \<open>Erasing a key\<close>

text \<open>
  C8. Erasing a key never fails and leaves the key absent; erasing it once more returns the
  same cache state, and erasing a key that is absent returns the state unchanged.
\<close>

theorem erase_idempotent:
  "\<exists>c'. Cache_erase key c = Inr c' \<and> \<not> Cache_exists key c' \<and> Cache_erase key c' = Inr c' \<and>
        (\<not> Cache_exists key c \<longrightarrow> c' = c)"
proof (cases "map_of (items (lru c)) key")
  case None
  then show ?thesis
    by (simp add: Cache_erase_eq Cache_exists_def LRU_exists_map_of)
next
  case (Some obj)
  then show ?thesis
    by (simp add: Cache_erase_eq Cache_exists_def LRU_exists_map_of)
qed

theorem erase_idempotent_witness:
  "\<not> Cache_exists ''A'' (state_of 80 100 [entry ''C'' 3 40, entry ''B'' 2 40]) \<and>
   Cache_erase ''A'' (state_of 80 100 [entry ''C'' 3 40, entry ''B'' 2 40]) =
     Inr (state_of 80 100 [entry ''C'' 3 40, entry ''B'' 2 40])"
proof -
  let ?c = "state_of 80 100 [entry ''C'' 3 40, entry ''B'' 2 40]"
  have h: "\<not> Cache_exists ''A'' ?c" by code_simp
  from erase_idempotent [of "''A''" ?c] h have "Cache_erase ''A'' ?c = Inr ?c" by auto
  with h show ?thesis by (intro conjI)
qed

subsection \<open>Looking a key up\<close>

text \<open>
  C9. Looking up an absent key returns no payload, not an error, and the cache unchanged.
  Looking up a present key returns the payload of its entry and moves the key to the most
  recently used position. A lookup changes neither the usage nor the capacity nor the set of
  keys present (on an index with distinct keys the entries stay the same), so it evicts
  nothing. The payload returned is the one last stored: when a key is still present after
  inserting it with payload \<open>d\<close>, looking it up returns \<open>d\<close>.
\<close>

theorem get_semantics:
  "(\<not> Cache_exists key c \<longrightarrow> Cache_get key c = Inr (None, c)) \<and>
   (Cache_exists key c \<longrightarrow>
      (\<exists>obj. map_of (items (lru c)) key = Some obj \<and>
         Cache_get key c =
           Inr (Some (data obj),
                c\<lparr>lru := (lru c)\<lparr>items := (key, obj) # filter (\<lambda>p. fst p \<noteq> key) (items (lru c))\<rparr>\<rparr>))) \<and>
   (\<exists>r c'. Cache_get key c = Inr (r, c') \<and> usage c' = usage c \<and> capacity c' = capacity c \<and>
        fst ` set (items (lru c')) = fst ` set (items (lru c)) \<and>
        (LRU_wf (lru c) \<longrightarrow> set (items (lru c')) = set (items (lru c)) \<and> LRU_wf (lru c'))) \<and>
   (LRU_wf (lru c) \<and> Cache_insert key d c = Inr c1 \<and> Cache_exists key c1 \<longrightarrow>
      (\<exists>c2. Cache_get key c1 = Inr (Some d, c2)))"
proof (intro conjI impI)
  assume "\<not> Cache_exists key c"
  then show "Cache_get key c = Inr (None, c)"
    by (simp add: Cache_get_def Cache_exists_def)
next
  assume "Cache_exists key c"
  then obtain obj where "map_of (items (lru c)) key = Some obj"
    by (auto simp: Cache_exists_def LRU_exists_map_of)
  then show "\<exists>obj. map_of (items (lru c)) key = Some obj \<and>
         Cache_get key c =
           Inr (Some (data obj),
                c\<lparr>lru := (lru c)\<lparr>items := (key, obj) # filter (\<lambda>p. fst p \<noteq> key) (items (lru c))\<rparr>\<rparr>)"
    by (simp add: Cache_get_eq)
next
  show "\<exists>r c'. Cache_get key c = Inr (r, c') \<and> usage c' = usage c \<and> capacity c' = capacity c \<and>
        fst ` set (items (lru c')) = fst ` set (items (lru c)) \<and>
        (LRU_wf (lru c) \<longrightarrow> set (items (lru c')) = set (items (lru c)) \<and> LRU_wf (lru c'))"
  proof (cases "map_of (items (lru c)) key")
    case None
    then show ?thesis by (simp add: Cache_get_eq)
  next
    case (Some obj)
    let ?xs = "(key, obj) # filter (\<lambda>p. fst p \<noteq> key) (items (lru c))"
    let ?c' = "c\<lparr>lru := (lru c)\<lparr>items := ?xs\<rparr>\<rparr>"
    have g: "Cache_get key c = Inr (Some (data obj), ?c')"
      using Some by (simp add: Cache_get_eq)
    have k: "fst ` set (items (lru ?c')) = fst ` set (items (lru c))"
      using keys_touch [OF Some] by simp
    have w: "set (items (lru ?c')) = set (items (lru c)) \<and> LRU_wf (lru ?c')" if "LRU_wf (lru c)"
    proof -
      from that have d: "distinct (map fst (items (lru c)))" by (simp add: LRU_wf_def)
      have one: "p = (key, obj)" if "p \<in> set (items (lru c))" "fst p = key" for p
      proof -
        obtain k v where p: "p = (k, v)" by (cases p)
        with that have "(key, v) \<in> set (items (lru c))" by simp
        then have "map_of (items (lru c)) key = Some v" by (rule map_of_is_SomeI [OF d])
        with Some that(2) p show ?thesis by simp
      qed
      have "(key, obj) \<in> set (items (lru c))" by (rule map_of_SomeD [OF Some])
      have "set ?xs = set (items (lru c))"
      proof (intro set_eqI iffI)
        fix p assume "p \<in> set ?xs"
        with \<open>(key, obj) \<in> set (items (lru c))\<close> show "p \<in> set (items (lru c))" by auto
      next
        fix p assume p: "p \<in> set (items (lru c))"
        show "p \<in> set ?xs"
        proof (cases "fst p = key")
          case True
          with one [OF p] show ?thesis by simp
        next
          case False
          with p show ?thesis by simp
        qed
      qed
      moreover have "distinct (map fst ?xs)" using d by (auto simp: distinct_map_filter)
      ultimately show ?thesis by (simp add: LRU_wf_def)
    qed
    show ?thesis
    proof (intro exI conjI impI)
      show "Cache_get key c = Inr (Some (data obj), ?c')" by (rule g)
      show "usage ?c' = usage c" by simp
      show "capacity ?c' = capacity c" by simp
      show "fst ` set (items (lru ?c')) = fst ` set (items (lru c))" by (rule k)
      show "set (items (lru ?c')) = set (items (lru c))" if "LRU_wf (lru c)"
        using w [OF that] by (rule conjunct1)
      show "LRU_wf (lru ?c')" if "LRU_wf (lru c)"
        using w [OF that] by (rule conjunct2)
    qed
  qed
next
  assume a: "LRU_wf (lru c) \<and> Cache_insert key d c = Inr c1 \<and> Cache_exists key c1"
  obtain c0 where c0: "Cache_insert_locked key d c = Inr c0"
    by (simp add: Cache_insert_locked_eq)
  have wf0: "LRU_wf (lru c0)" using LRU_wf_insert_locked [OF _ c0] a by simp
  have "c1 = eviction_by threshhold c0"
    using Cache_insert_eq [OF c0 wf0] a by simp
  then have "map_of (items (lru c1)) key = None \<or> map_of (items (lru c1)) key = Some \<lparr>data = d\<rparr>"
    using map_of_eviction_by [of threshhold c0 key] map_of_insert_locked [OF c0]
    by (elim disjE) simp_all
  moreover from a have "map_of (items (lru c1)) key \<noteq> None"
    by (simp add: Cache_exists_def LRU_exists_map_of)
  ultimately have "map_of (items (lru c1)) key = Some \<lparr>data = d\<rparr>"
    by simp
  then show "\<exists>c2. Cache_get key c1 = Inr (Some d, c2)"
    by (simp add: Cache_get_eq)
qed

theorem get_semantics_witness:
  "\<not> Cache_exists ''A'' (state_of 80 100 [entry ''C'' 3 40, entry ''B'' 2 40]) \<and>
   Cache_get ''A'' (state_of 80 100 [entry ''C'' 3 40, entry ''B'' 2 40]) =
     Inr (None, state_of 80 100 [entry ''C'' 3 40, entry ''B'' 2 40]) \<and>
   Cache_exists ''B'' (state_of 80 100 [entry ''C'' 3 40, entry ''B'' 2 40]) \<and>
   Cache_get ''B'' (state_of 80 100 [entry ''C'' 3 40, entry ''B'' 2 40]) =
     Inr (Some \<lparr>ptr = 2, data_size = 40\<rparr>, state_of 80 100 [entry ''B'' 2 40, entry ''C'' 3 40]) \<and>
   LRU_wf (lru (state_of 80 100 [entry ''C'' 3 40, entry ''B'' 2 40])) \<and>
   Cache_insert ''B'' \<lparr>ptr = 5, data_size = 10\<rparr> (state_of 80 100 [entry ''C'' 3 40, entry ''B'' 2 40]) =
     Inr (state_of 50 100 [entry ''B'' 5 10, entry ''C'' 3 40]) \<and>
   Cache_exists ''B'' (state_of 50 100 [entry ''B'' 5 10, entry ''C'' 3 40]) \<and>
   (\<exists>c2. Cache_get ''B'' (state_of 50 100 [entry ''B'' 5 10, entry ''C'' 3 40]) =
           Inr (Some \<lparr>ptr = 5, data_size = 10\<rparr>, c2))"
proof -
  let ?c = "state_of 80 100 [entry ''C'' 3 40, entry ''B'' 2 40]"
  let ?c1 = "state_of 50 100 [entry ''B'' 5 10, entry ''C'' 3 40]"
  let ?d = "\<lparr>ptr = 5, data_size = 10\<rparr>"
  have h1: "\<not> Cache_exists ''A'' ?c" by code_simp
  have h2: "Cache_exists ''B'' ?c" by code_simp
  have h3: "LRU_wf (lru ?c)" by code_simp
  have h4: "Cache_insert ''B'' ?d ?c = Inr ?c1" by code_simp
  have h5: "Cache_exists ''B'' ?c1" by code_simp
  have g: "Cache_get ''B'' ?c = Inr (Some \<lparr>ptr = 2, data_size = 40\<rparr>, state_of 80 100 [entry ''B'' 2 40, entry ''C'' 3 40])"
    by code_simp
  have a: "Cache_get ''A'' ?c = Inr (None, ?c)"
    using get_semantics [of "''A''" ?c] h1 by blast
  have b: "\<exists>c2. Cache_get ''B'' ?c1 = Inr (Some ?d, c2)"
    using get_semantics [of "''B''" ?c ?d ?c1] h3 h4 h5 by blast
  show ?thesis by (intro conjI h1 a h2 g h3 h4 h5 b)
qed

end
